theory Spec2Isabelle
  imports Complex_Main "HOL-Library.Multiset" "HOL-Library.Product_Lexorder"
begin

section \<open>Data model of the ingestion service (index.js)\<close>

text \<open>
  Identifiers are the strings returned by \<open>uuidv4()\<close>. Item ids that passed validation
  are integers, timestamps are the integer milliseconds of \<open>Date.now()\<close>. The three
  priority strings and the three status strings written by the code are enumerations.
\<close>

type_synonym uuid = string

datatype priority = HIGH | MEDIUM | LOW

datatype status = yet_to_start | triggered | completed

text \<open>The value stored in \<open>batchStatuses\<close>: \<open>{ batch_id, ids, status }\<close>.\<close>

record batch =
  b_batch_id :: uuid
  b_ids :: "int list"
  b_status :: status

text \<open>The value stored in \<open>ingestionJobs\<close>.\<close>

record job =
  j_ingestion_id :: uuid
  j_status :: status
  j_batches :: "uuid list"
  j_priority :: priority
  j_created_time :: int

text \<open>The object pushed on the queue: \<open>{ batch_id, ids, priority, created_time, ingestion_id }\<close>.\<close>

record entry =
  e_batch_id :: uuid
  e_ids :: "int list"
  e_priority :: priority
  e_created_time :: int
  e_ingestion_id :: uuid

section \<open>The priority queue\<close>

text \<open>\<open>const priorityOrder = { HIGH: 0, MEDIUM: 1, LOW: 2 }\<close>\<close>

fun priorityOrder :: "priority \<Rightarrow> int" where
  "priorityOrder HIGH = 0"
| "priorityOrder MEDIUM = 1"
| "priorityOrder LOW = 2"

text \<open>The comparator handed to the queue (index.js, lines 34 to 40).\<close>

definition comparator :: "entry \<Rightarrow> entry \<Rightarrow> int" where
  "comparator a b =
     (if priorityOrder (e_priority a) \<noteq> priorityOrder (e_priority b)
      then priorityOrder (e_priority a) - priorityOrder (e_priority b)
      else e_created_time a - e_created_time b)"

text \<open>
  \<open>Array.prototype.sort(cmp)\<close> is a stable sort: an element is placed before another one
  only when the comparator is negative or when it already stood before it and the
  comparator does not say otherwise. It is modelled by stable insertion sort.
\<close>

fun insert_sorted :: "('a \<Rightarrow> 'a \<Rightarrow> int) \<Rightarrow> 'a \<Rightarrow> 'a list \<Rightarrow> 'a list" where
  "insert_sorted cmp x [] = [x]"
| "insert_sorted cmp x (y # ys) =
     (if cmp x y \<le> 0 then x # y # ys else y # insert_sorted cmp x ys)"

definition array_sort :: "('a \<Rightarrow> 'a \<Rightarrow> int) \<Rightarrow> 'a list \<Rightarrow> 'a list" where
  "array_sort cmp xs = foldr (insert_sorted cmp) xs []"

text \<open>\<open>enqueue(item) { this.items.push(item); this.items.sort(this.comparator); }\<close>\<close>

definition enqueue :: "entry list \<Rightarrow> entry \<Rightarrow> entry list" where
  "enqueue items item = array_sort comparator (items @ [item])"

text \<open>
  \<open>dequeue() { return this.items.shift(); }\<close>: on an empty array \<open>shift\<close> returns
  \<open>undefined\<close> (here \<open>None\<close>) and leaves the array empty.
\<close>

definition dequeue :: "entry list \<Rightarrow> entry option \<times> entry list" where
  "dequeue items = (case items of [] \<Rightarrow> (None, []) | x # rest \<Rightarrow> (Some x, rest))"

text \<open>Sequences of queue operations, the values returned by the dequeues and the final array.\<close>

datatype queue_op = Enqueue entry | Dequeue

fun run_queue :: "queue_op list \<Rightarrow> entry list \<Rightarrow> entry option list \<times> entry list" where
  "run_queue [] items = ([], items)"
| "run_queue (Enqueue x # ops) items = run_queue ops (enqueue items x)"
| "run_queue (Dequeue # ops) items =
     (let (r, items') = dequeue items; (rs, final) = run_queue ops items' in (r # rs, final))"

fun enqueued :: "queue_op list \<Rightarrow> entry list" where
  "enqueued [] = []"
| "enqueued (Enqueue x # ops) = x # enqueued ops"
| "enqueued (Dequeue # ops) = enqueued ops"

fun returned :: "entry option list \<Rightarrow> entry list" where
  "returned [] = []"
| "returned (None # rs) = returned rs"
| "returned (Some x # rs) = x # returned rs"

subsection \<open>The scheduler as the specification words it\<close>

text \<open>
  The specification's scheduler keeps the pending entries in insertion order. An entry
  goes before another one when its priority rank is smaller, or the ranks are equal and its
  \<open>created_time\<close> is smaller. \<open>dequeue\<close> takes the earliest inserted entry among those
  that no pending entry goes before.
\<close>

definition goes_before :: "entry \<Rightarrow> entry \<Rightarrow> bool" where
  "goes_before a b \<longleftrightarrow>
     priorityOrder (e_priority a) < priorityOrder (e_priority b) \<or>
     (priorityOrder (e_priority a) = priorityOrder (e_priority b) \<and>
      e_created_time a < e_created_time b)"

fun first_minimal :: "entry list \<Rightarrow> entry" where
  "first_minimal [] = undefined"
| "first_minimal [x] = x"
| "first_minimal (x # y # ys) =
     (let m = first_minimal (y # ys) in if goes_before m x then m else x)"

definition spec_enqueue :: "entry list \<Rightarrow> entry \<Rightarrow> entry list" where
  "spec_enqueue pending x = pending @ [x]"

definition spec_dequeue :: "entry list \<Rightarrow> entry option \<times> entry list" where
  "spec_dequeue pending =
     (if pending = [] then (None, [])
      else (Some (first_minimal pending), remove1 (first_minimal pending) pending))"

fun spec_run :: "queue_op list \<Rightarrow> entry list \<Rightarrow> entry option list \<times> entry list" where
  "spec_run [] pending = ([], pending)"
| "spec_run (Enqueue x # ops) pending = spec_run ops (spec_enqueue pending x)"
| "spec_run (Dequeue # ops) pending =
     (let (r, pending') = spec_dequeue pending; (rs, final) = spec_run ops pending'
      in (r # rs, final))"

text \<open>The sort key that the comparator compares.\<close>

definition sort_key_of :: "entry \<Rightarrow> int \<times> int" where
  "sort_key_of e = (priorityOrder (e_priority e), e_created_time e)"

section \<open>The store, the clock and the runs of the dispatcher\<close>

text \<open>
  The module state of index.js: the two maps, the queue's array and
  \<open>lastProcessedTime\<close>. The environment is part of the state as well: \<open>clock\<close> is
  the value \<open>Date.now()\<close> returns, \<open>uuid_calls\<close> counts the calls of \<open>uuidv4()\<close>
  (the n-th call returns \<open>uuidv4 n\<close> of a generator passed to the handler), \<open>fetched\<close>
  is the trace of the calls \<open>fetchExternalData(id)\<close> with the batch they were made for, and
  \<open>errors\<close> the lines written by \<open>console.error\<close> in the item loop.

  \<open>processBatches\<close> is an async function: every call of it is a run that executes until
  its next \<open>await\<close> and is resumed later. \<open>runs\<close> holds, for each call made so far, where
  it is suspended.
\<close>

datatype error = TypeError

datatype run =
    Running
  | AtGate int
  | InItem entry int "int list"
  | Returned
  | Threw error

record state =
  ingestionJobs :: "uuid \<rightharpoonup> job"
  batchStatuses :: "uuid \<rightharpoonup> batch"
  queue :: "entry list"
  lastProcessedTime :: int
  clock :: int
  uuid_calls :: nat
  runs :: "run list"
  fetched :: "(uuid \<times> int) list"
  errors :: "(uuid \<times> int) list"

definition RATE_LIMIT_MS :: int where
  "RATE_LIMIT_MS = 5000"

definition BATCH_SIZE :: nat where
  "BATCH_SIZE = 3"

text \<open>The server starts with empty maps, an empty queue and \<open>lastProcessedTime = 0\<close>.\<close>

definition init :: "int \<Rightarrow> state" where
  "init t0 =
     \<lparr>ingestionJobs = Map.empty, batchStatuses = Map.empty, queue = [],
      lastProcessedTime = 0, clock = t0, uuid_calls = 0, runs = [], fetched = [],
      errors = []\<rparr>"

subsection \<open>updateIngestionStatus\<close>

text \<open>
  \<open>batches.every(b => b.status === s)\<close> and \<open>batches.some(b => b.status === s)\<close> over
  the looked-up batches. They stop at the first element that decides the answer; reading
  \<open>.status\<close> of a batch id that is not in \<open>batchStatuses\<close> (\<open>undefined\<close>) throws.
\<close>

fun every_status :: "status \<Rightarrow> batch option list \<Rightarrow> error + bool" where
  "every_status s [] = Inr True"
| "every_status s (None # bs) = Inl TypeError"
| "every_status s (Some b # bs) = (if b_status b = s then every_status s bs else Inr False)"

fun some_status :: "status \<Rightarrow> batch option list \<Rightarrow> error + bool" where
  "some_status s [] = Inr False"
| "some_status s (None # bs) = Inl TypeError"
| "some_status s (Some b # bs) = (if b_status b = s then Inr True else some_status s bs)"

definition updateIngestionStatus :: "uuid \<Rightarrow> state \<Rightarrow> error + state" where
  "updateIngestionStatus ingestion_id st =
     (case ingestionJobs st ingestion_id of
        None \<Rightarrow> Inr st
      | Some job \<Rightarrow>
          (let batches = map (batchStatuses st) (j_batches job) in
           case every_status yet_to_start batches of
             Inl e \<Rightarrow> Inl e
           | Inr allYetToStart \<Rightarrow>
               (case some_status triggered batches of
                  Inl e \<Rightarrow> Inl e
                | Inr anyTriggered \<Rightarrow>
                    (case every_status completed batches of
                       Inl e \<Rightarrow> Inl e
                     | Inr allCompleted \<Rightarrow>
                         Inr (st\<lparr>ingestionJobs := (ingestionJobs st)(ingestion_id \<mapsto>
                                job\<lparr>j_status :=
                                  (if allYetToStart then yet_to_start
                                   else if anyTriggered then triggered
                                   else completed)\<rparr>)\<rparr>)))))"

lemma updateIngestionStatus_queue:
  "updateIngestionStatus i st = Inr st' \<Longrightarrow> queue st' = queue st"
  by (auto simp: updateIngestionStatus_def Let_def split: option.splits sum.splits)

subsection \<open>processBatches\<close>

text \<open>
  \<open>batchStatuses.set(batch_id, { batch_id, ids, status })\<close> for the batch taken from the
  queue.
\<close>

definition set_batch_status :: "entry \<Rightarrow> status \<Rightarrow> state \<Rightarrow> state" where
  "set_batch_status b s st =
     st\<lparr>batchStatuses := (batchStatuses st)(e_batch_id b \<mapsto>
          \<lparr>b_batch_id = e_batch_id b, b_ids = e_ids b, b_status = s\<rparr>)\<rparr>"

definition set_run :: "nat \<Rightarrow> run \<Rightarrow> state \<Rightarrow> state" where
  "set_run r v st = st\<lparr>runs := (runs st)[r := v]\<rparr>"

text \<open>
  The places of \<open>processBatches\<close> at which a run executes synchronous code: the test of
  the \<open>while\<close> loop (line 55), the statement after the rate-limit wait (line 61), the head
  of the \<open>for\<close> loop over the ids still to be processed (line 68), and the statement
  after that loop (line 76).
\<close>

datatype point = LoopTest | AfterGate | NextItem entry "int list" | AfterItems entry

fun point_rank :: "point \<Rightarrow> nat" where
  "point_rank AfterGate = 0"
| "point_rank LoopTest = 1"
| "point_rank (AfterItems b) = 2"
| "point_rank (NextItem b ids) = 3"

text \<open>
  \<open>resume p r st\<close> executes run \<open>r\<close> from point \<open>p\<close> up to its next \<open>await\<close>, its
  return or its exception. Within such a piece of synchronous code \<open>Date.now()\<close> is read
  from the same \<open>clock\<close>. \<open>queue.dequeue()\<close> on an empty queue returns \<open>undefined\<close> and
  the destructuring of line 62 throws; an exception of \<open>updateIngestionStatus\<close> leaves
  the function as well.
\<close>

function resume :: "point \<Rightarrow> nat \<Rightarrow> state \<Rightarrow> state" where
  "resume LoopTest r st =
     (if length (queue st) > 0 then
        (let now = clock st in
         if now - lastProcessedTime st < RATE_LIMIT_MS
         then set_run r (AtGate (now + (RATE_LIMIT_MS - (now - lastProcessedTime st)))) st
         else resume AfterGate r st)
      else set_run r Returned st)"
| "resume AfterGate r st =
     (case dequeue (queue st) of
        (None, items) \<Rightarrow> set_run r (Threw TypeError) st
      | (Some b, items) \<Rightarrow>
          (let st1 = set_batch_status b triggered (st\<lparr>queue := items\<rparr>) in
           case updateIngestionStatus (e_ingestion_id b) st1 of
             Inl e \<Rightarrow> set_run r (Threw e) st1
           | Inr st2 \<Rightarrow> resume (NextItem b (e_ids b)) r st2))"
| "resume (NextItem b ids) r st =
     (case ids of
        [] \<Rightarrow> resume (AfterItems b) r st
      | item # rest \<Rightarrow>
          set_run r (InItem b item rest)
            (st\<lparr>fetched := fetched st @ [(e_batch_id b, item)]\<rparr>))"
| "resume (AfterItems b) r st =
     (let st1 = set_batch_status b completed st in
      case updateIngestionStatus (e_ingestion_id b) st1 of
        Inl e \<Rightarrow> set_run r (Threw e) st1
      | Inr st2 \<Rightarrow> resume LoopTest r (st2\<lparr>lastProcessedTime := clock st2\<rparr>))"
  by pat_completeness auto
termination
proof (relation "measure (\<lambda>(p, r, st). 4 * length (queue st) + point_rank p)", goal_cases)
  case 1
  show ?case by simp
next
  case 2
  show ?case by simp
next
  case 3
  then show ?case
    by (auto dest!: updateIngestionStatus_queue
        simp: set_batch_status_def dequeue_def split: list.splits)
next
  case 4
  show ?case by simp
next
  case 5
  then show ?case
    by (auto dest!: updateIngestionStatus_queue simp: set_batch_status_def)
qed

declare resume.simps [simp del]

section \<open>The HTTP handlers\<close>

text \<open>
  The body of a request is what \<open>express.json()\<close> parsed. A JSON number is a rational
  here; \<open>Number.isInteger\<close> holds of the whole numbers. \<open>None\<close> is a missing property
  (\<open>undefined\<close>).
\<close>

datatype json =
    JNull
  | JBool bool
  | JNum rat
  | JStr string
  | JArr "json list"
  | JObj "(string \<times> json) list"

record request =
  req_ids :: "json option"
  req_priority :: "json option"

datatype response =
    BadRequest string
  | Accepted uuid
  | NotFound string
  | StatusOf uuid status "batch option list"

definition isInteger :: "rat \<Rightarrow> bool" where
  "isInteger x \<longleftrightarrow> of_int \<lfloor>x\<rfloor> = x"

text \<open>\<open>Number.isInteger(id) && id >= 1 && id <= 1000000007\<close>\<close>

fun valid_id :: "json \<Rightarrow> bool" where
  "valid_id (JNum x) = (isInteger x \<and> x \<ge> 1 \<and> x \<le> 1000000007)"
| "valid_id v = False"

fun number_of :: "json \<Rightarrow> int" where
  "number_of (JNum x) = \<lfloor>x\<rfloor>"
| "number_of v = 0"

text \<open>\<open>['HIGH', 'MEDIUM', 'LOW'].includes(priority)\<close>, with the member found.\<close>

fun includes_priority :: "json \<Rightarrow> priority option" where
  "includes_priority (JStr s) =
     (if s = ''HIGH'' then Some HIGH
      else if s = ''MEDIUM'' then Some MEDIUM
      else if s = ''LOW'' then Some LOW
      else None)"
| "includes_priority v = None"

text \<open>
  The loop of lines 113 to 119: \<open>ids.slice(i, i + BATCH_SIZE)\<close>, a fresh batch id, the
  batch stored as \<open>yet_to_start\<close>, its id pushed on \<open>batches\<close>, its entry enqueued.
\<close>

function batch_loop ::
  "(nat \<Rightarrow> uuid) \<Rightarrow> int list \<Rightarrow> priority \<Rightarrow> int \<Rightarrow> uuid \<Rightarrow> nat \<Rightarrow> uuid list \<Rightarrow> state
     \<Rightarrow> uuid list \<times> state" where
  "batch_loop uuidv4 ids p created_time ingestion_id i batches st =
     (if i < length ids then
        (let batch_ids = take BATCH_SIZE (drop i ids);
             batch_id = uuidv4 (uuid_calls st);
             st1 = st\<lparr>uuid_calls := Suc (uuid_calls st),
                      batchStatuses := (batchStatuses st)(batch_id \<mapsto>
                        \<lparr>b_batch_id = batch_id, b_ids = batch_ids, b_status = yet_to_start\<rparr>),
                      queue := enqueue (queue st)
                        \<lparr>e_batch_id = batch_id, e_ids = batch_ids, e_priority = p,
                         e_created_time = created_time, e_ingestion_id = ingestion_id\<rparr>\<rparr>
         in batch_loop uuidv4 ids p created_time ingestion_id (i + BATCH_SIZE)
              (batches @ [batch_id]) st1)
      else (batches, st))"
  by pat_completeness auto
termination
  by (relation "measure (\<lambda>(uuidv4, ids, p, created_time, ingestion_id, i, batches, st).
        length ids - i)") (auto simp: BATCH_SIZE_def)

declare batch_loop.simps [simp del]

text \<open>Lines 108 to 121: the job id, the creation time, the batches, the job.\<close>

definition create_records ::
  "(nat \<Rightarrow> uuid) \<Rightarrow> int list \<Rightarrow> priority \<Rightarrow> state \<Rightarrow> uuid \<times> uuid list \<times> state" where
  "create_records uuidv4 ids p st =
     (let ingestion_id = uuidv4 (uuid_calls st);
          st0 = st\<lparr>uuid_calls := Suc (uuid_calls st)\<rparr>;
          created_time = clock st0;
          (batches, st1) = batch_loop uuidv4 ids p created_time ingestion_id 0 [] st0
      in (ingestion_id, batches,
          st1\<lparr>ingestionJobs := (ingestionJobs st1)(ingestion_id \<mapsto>
            \<lparr>j_ingestion_id = ingestion_id, j_status = yet_to_start, j_batches = batches,
             j_priority = p, j_created_time = created_time\<rparr>)\<rparr>))"

text \<open>
  Lines 123 to 126: \<open>if (queue.length === batches.length) processBatches()\<close>. The new
  run executes at once up to its first \<open>await\<close>.
\<close>

definition start_if_idle :: "nat \<Rightarrow> state \<Rightarrow> state" where
  "start_if_idle n st =
     (if length (queue st) = n
      then resume LoopTest (length (runs st)) (st\<lparr>runs := runs st @ [Running]\<rparr>)
      else st)"

text \<open>
  Lines 98 to 106: the default of \<open>priority\<close>, then the two checks; the message of the
  400 response, or the ids and the priority that passed.
\<close>

definition validate :: "request \<Rightarrow> string + int list \<times> priority" where
  "validate req =
     (let priority = (case req_priority req of None \<Rightarrow> JStr ''LOW'' | Some v \<Rightarrow> v) in
      case req_ids req of
        Some (JArr ids) \<Rightarrow>
          if ids = [] \<or> \<not> list_all valid_id ids then Inl ''Invalid IDs''
          else (case includes_priority priority of
                  None \<Rightarrow> Inl ''Invalid priority''
                | Some p \<Rightarrow> Inr (map number_of ids, p))
      | _ \<Rightarrow> Inl ''Invalid IDs'')"

text \<open>\<open>app.post('/ingest', ...)\<close>\<close>

definition ingest :: "(nat \<Rightarrow> uuid) \<Rightarrow> request \<Rightarrow> state \<Rightarrow> response \<times> state" where
  "ingest uuidv4 req st =
     (case validate req of
        Inl msg \<Rightarrow> (BadRequest msg, st)
      | Inr (ids, p) \<Rightarrow>
          (let (ingestion_id, batches, st1) = create_records uuidv4 ids p st
           in (Accepted ingestion_id, start_if_idle (length batches) st1)))"

text \<open>\<open>app.get('/status/:ingestion_id', ...)\<close>\<close>

definition get_status :: "uuid \<Rightarrow> state \<Rightarrow> response" where
  "get_status ingestion_id st =
     (case ingestionJobs st ingestion_id of
        None \<Rightarrow> NotFound ''Ingestion ID not found''
      | Some job \<Rightarrow>
          StatusOf ingestion_id (j_status job) (map (batchStatuses st) (j_batches job)))"

section \<open>The events of the running server\<close>

text \<open>
  What can happen to the server: a request, the clock advancing, the timer of a run
  waiting at the rate limit firing (not before it is due), and the promise of
  \<open>fetchExternalData\<close> a run awaits being settled, fulfilled (\<open>True\<close>) or rejected. A
  rejection is caught by line 71 and logged. An event that cannot happen in a state gives
  \<open>None\<close>.
\<close>

datatype event =
    PostIngest request
  | GetStatus uuid
  | Tick nat
  | TimerFired nat
  | FetchSettled nat bool

fun fire :: "(nat \<Rightarrow> uuid) \<Rightarrow> event \<Rightarrow> state \<Rightarrow> state option" where
  "fire uuidv4 (PostIngest req) st = Some (snd (ingest uuidv4 req st))"
| "fire uuidv4 (GetStatus ingestion_id) st = Some st"
| "fire uuidv4 (Tick d) st = Some (st\<lparr>clock := clock st + int d\<rparr>)"
| "fire uuidv4 (TimerFired r) st =
     (if r < length (runs st) then
        (case runs st ! r of
           AtGate due \<Rightarrow> if due \<le> clock st then Some (resume AfterGate r st) else None
         | _ \<Rightarrow> None)
      else None)"
| "fire uuidv4 (FetchSettled r ok) st =
     (if r < length (runs st) then
        (case runs st ! r of
           InItem b item rest \<Rightarrow>
             Some (resume (NextItem b rest) r
                    (if ok then st else st\<lparr>errors := errors st @ [(e_batch_id b, item)]\<rparr>))
         | _ \<Rightarrow> None)
      else None)"

fun run_events :: "(nat \<Rightarrow> uuid) \<Rightarrow> event list \<Rightarrow> state \<Rightarrow> state option" where
  "run_events uuidv4 [] st = Some st"
| "run_events uuidv4 (ev # evs) st =
     (case fire uuidv4 ev st of None \<Rightarrow> None | Some st' \<Rightarrow> run_events uuidv4 evs st')"

section \<open>The status aggregator as the specification words it\<close>

text \<open>
  The status of a batch as the store has it, and the rule of the specification over the
  statuses of the batches of a job, evaluated in order: all \<open>yet_to_start\<close>, else any
  \<open>triggered\<close>, else \<open>completed\<close>. \<open>recomputed\<close> is what a recomputation makes of the
  job's status, or the exception it throws.
\<close>

definition batch_status :: "state \<Rightarrow> uuid \<Rightarrow> status option" where
  "batch_status st b = map_option b_status (batchStatuses st b)"

definition aggregate :: "status option list \<Rightarrow> status" where
  "aggregate ss =
     (if list_all (\<lambda>s. s = Some yet_to_start) ss then yet_to_start
      else if list_ex (\<lambda>s. s = Some triggered) ss then triggered
      else completed)"

definition recomputed :: "uuid \<Rightarrow> state \<Rightarrow> error + status option" where
  "recomputed i st =
     (case updateIngestionStatus i st of
        Inl e \<Rightarrow> Inl e
      | Inr st' \<Rightarrow> Inr (map_option j_status (ingestionJobs st' i)))"

text \<open>A job of two batches, the first completed, the second not yet started.\<close>

definition example_store :: state where
  "example_store =
     (init 0)\<lparr>ingestionJobs :=
        [''job'' \<mapsto> \<lparr>j_ingestion_id = ''job'', j_status = triggered,
           j_batches = [''b1'', ''b2''], j_priority = HIGH, j_created_time = 0\<rparr>],
      batchStatuses :=
        [''b1'' \<mapsto> \<lparr>b_batch_id = ''b1'', b_ids = [1, 2, 3], b_status = completed\<rparr>,
         ''b2'' \<mapsto> \<lparr>b_batch_id = ''b2'', b_ids = [4], b_status = yet_to_start\<rparr>]\<rparr>"

section \<open>Valid submissions as the specification words them\<close>

text \<open>
  A submission is valid when \<open>ids\<close> is a non-empty array of integers, each from 1 to
  1000000007, and \<open>priority\<close> is absent (it defaults to \<open>LOW\<close>) or one of \<open>HIGH\<close>,
  \<open>MEDIUM\<close>, \<open>LOW\<close>.
\<close>

definition id_in_range :: "json \<Rightarrow> bool" where
  "id_in_range v \<longleftrightarrow> (case v of JNum x \<Rightarrow> x \<in> \<int> \<and> 1 \<le> x \<and> x \<le> 1000000007 | _ \<Rightarrow> False)"

definition valid_submission :: "request \<Rightarrow> bool" where
  "valid_submission req \<longleftrightarrow>
     (case req_ids req of
        Some (JArr xs) \<Rightarrow> xs \<noteq> [] \<and> list_all id_in_range xs
      | _ \<Rightarrow> False) \<and>
     (case req_priority req of
        None \<Rightarrow> True
      | Some v \<Rightarrow> v = JStr ''HIGH'' \<or> v = JStr ''MEDIUM'' \<or> v = JStr ''LOW'')"

text \<open>A generator of identifiers that never repeats, and the submission of scenario C.\<close>

definition example_uuidv4 :: "nat \<Rightarrow> uuid" where
  "example_uuidv4 n = replicate (Suc n) CHR ''u''"

definition scenario_C :: request where
  "scenario_C = \<lparr>req_ids = Some (JArr [JNum (- 1)]), req_priority = None\<rparr>"

section \<open>What the batching loop produces\<close>

text \<open>
  The groups that the loop of lines 113 to 119 cuts from index \<open>i\<close> on, the identifiers
  that \<open>n\<close> calls of \<open>uuidv4()\<close> return after \<open>c\<close> earlier calls, the queue entry of a
  group, and the batches stored for a list of identified groups.
\<close>

function slices :: "'a list \<Rightarrow> nat \<Rightarrow> 'a list list" where
  "slices ids i =
     (if i < length ids then take BATCH_SIZE (drop i ids) # slices ids (i + BATCH_SIZE)
      else [])"
  by pat_completeness auto
termination
  by (relation "measure (\<lambda>(ids, i). length ids - i)") (auto simp: BATCH_SIZE_def)

declare slices.simps [simp del]

fun fresh :: "(nat \<Rightarrow> uuid) \<Rightarrow> nat \<Rightarrow> nat \<Rightarrow> uuid list" where
  "fresh uuidv4 c 0 = []"
| "fresh uuidv4 c (Suc n) = uuidv4 c # fresh uuidv4 (Suc c) n"

definition entry_of :: "priority \<Rightarrow> int \<Rightarrow> uuid \<Rightarrow> uuid \<times> int list \<Rightarrow> entry" where
  "entry_of p created_time ingestion_id bg =
     \<lparr>e_batch_id = fst bg, e_ids = snd bg, e_priority = p,
      e_created_time = created_time, e_ingestion_id = ingestion_id\<rparr>"

fun store_batches :: "(uuid \<times> int list) list \<Rightarrow> (uuid \<rightharpoonup> batch) \<Rightarrow> (uuid \<rightharpoonup> batch)" where
  "store_batches [] m = m"
| "store_batches (bg # bgs) m =
     store_batches bgs
       (m(fst bg \<mapsto> \<lparr>b_batch_id = fst bg, b_ids = snd bg, b_status = yet_to_start\<rparr>))"

text \<open>Scenario A: the ids 1, 2, 3, 4 submitted with priority \<open>HIGH\<close>.\<close>

definition scenario_A :: request where
  "scenario_A =
     \<lparr>req_ids = Some (JArr [JNum 1, JNum 2, JNum 3, JNum 4]),
      req_priority = Some (JStr ''HIGH'')\<rparr>"

text \<open>Two entries of one submission: same priority, same creation time.\<close>

definition first_entry :: entry where
  "first_entry =
     \<lparr>e_batch_id = ''uu'', e_ids = [1, 2, 3], e_priority = LOW, e_created_time = 7,
      e_ingestion_id = ''u''\<rparr>"

definition second_entry :: entry where
  "second_entry =
     \<lparr>e_batch_id = ''uuu'', e_ids = [4], e_priority = LOW, e_created_time = 7,
      e_ingestion_id = ''u''\<rparr>"

text \<open>A later entry of higher priority.\<close>

definition urgent_entry :: entry where
  "urgent_entry =
     \<lparr>e_batch_id = ''uuuuu'', e_ids = [9], e_priority = HIGH, e_created_time = 8,
      e_ingestion_id = ''uuuu''\<rparr>"

section \<open>The order of the batch statuses and the invariant of the store\<close>

text \<open>
  The statuses in their order \<open>yet_to_start\<close>, \<open>triggered\<close>, \<open>completed\<close>. A store has
  advanced from another one when every batch of the older store is still there and its
  status has not moved backwards.
\<close>

fun status_rank :: "status \<Rightarrow> nat" where
  "status_rank yet_to_start = 0"
| "status_rank triggered = 1"
| "status_rank completed = 2"

definition advanced :: "(uuid \<rightharpoonup> batch) \<Rightarrow> (uuid \<rightharpoonup> batch) \<Rightarrow> bool" where
  "advanced m m' \<longleftrightarrow>
     (\<forall>b x. m b = Some x \<longrightarrow>
        (\<exists>x'. m' b = Some x' \<and> status_rank (b_status x) \<le> status_rank (b_status x')))"

text \<open>
  What holds of the queue, the store, the runs and the number of identifiers drawn in
  every state the server reaches: the queued entries are of different batches, all not
  yet started; the batch a run is working on has been started; every stored batch has an
  identifier that \<open>uuidv4()\<close> has returned.
\<close>

definition started :: "(uuid \<rightharpoonup> batch) \<Rightarrow> entry \<Rightarrow> bool" where
  "started m b \<longleftrightarrow>
     (\<exists>x. m (e_batch_id b) = Some x \<and> b_status x \<noteq> yet_to_start)"

fun in_flight_started :: "(uuid \<rightharpoonup> batch) \<Rightarrow> run \<Rightarrow> bool" where
  "in_flight_started m (InItem b item rest) = started m b"
| "in_flight_started m r = True"

definition store_inv ::
  "(nat \<Rightarrow> uuid) \<Rightarrow> entry list \<Rightarrow> (uuid \<rightharpoonup> batch) \<Rightarrow> run list \<Rightarrow> nat \<Rightarrow> bool" where
  "store_inv u q m rs c \<longleftrightarrow>
     distinct (map e_batch_id q) \<and>
     (\<forall>e\<in>set q. \<exists>x. m (e_batch_id e) = Some x \<and> b_status x = yet_to_start) \<and>
     (\<forall>r\<in>set rs. in_flight_started m r) \<and>
     dom m \<subseteq> u ` {..<c}"

definition state_inv :: "(nat \<Rightarrow> uuid) \<Rightarrow> state \<Rightarrow> bool" where
  "state_inv u st = store_inv u (queue st) (batchStatuses st) (runs st) (uuid_calls st)"

text \<open>What a run needs at a point of \<open>processBatches\<close>: in the item loop and after it, its batch has been started.\<close>

fun point_ok :: "(uuid \<rightharpoonup> batch) \<Rightarrow> point \<Rightarrow> bool" where
  "point_ok m (NextItem b ids) = started m b"
| "point_ok m (AfterItems b) = started m b"
| "point_ok m p = True"

text \<open>
  Two submissions of one batch each: the ids 1, 2, 3 with priority \<open>HIGH\<close>, and the id 5
  with no priority given.
\<close>

definition first_submission :: request where
  "first_submission =
     \<lparr>req_ids = Some (JArr [JNum 1, JNum 2, JNum 3]), req_priority = Some (JStr ''HIGH'')\<rparr>"

definition second_submission :: request where
  "second_submission = \<lparr>req_ids = Some (JArr [JNum 5]), req_priority = None\<rparr>"

section \<open>The item loop of a dispatched batch\<close>

text \<open>
  The state in which a run leaves the loop over the ids of its batch (lines 68 to 74),
  given for each id whether its fetch was fulfilled: every id was passed to
  \<open>fetchExternalData\<close>, every rejection was logged. \<open>failed\<close> are the ids whose fetch was
  rejected.
\<close>

fun items_done :: "entry \<Rightarrow> nat \<Rightarrow> int list \<Rightarrow> bool list \<Rightarrow> state \<Rightarrow> state" where
  "items_done b r (item # rest) (ok # oks) st =
     items_done b r rest oks
       (let st1 = set_run r (InItem b item rest)
                    (st\<lparr>fetched := fetched st @ [(e_batch_id b, item)]\<rparr>)
        in if ok then st1 else st1\<lparr>errors := errors st1 @ [(e_batch_id b, item)]\<rparr>)"
| "items_done b r ids oks st = st"

fun failed :: "int list \<Rightarrow> bool list \<Rightarrow> int list" where
  "failed (item # rest) (ok # oks) = (if ok then failed rest oks else item # failed rest oks)"
| "failed ids oks = []"

section \<open>Properties of the priority queue\<close>

lemma comparator_le_iff: "comparator a b \<le> 0 \<longleftrightarrow> sort_key_of a \<le> sort_key_of b"
  by (auto simp: comparator_def sort_key_of_def less_eq_prod_def)

lemma goes_before_iff: "goes_before a b \<longleftrightarrow> sort_key_of a < sort_key_of b"
  by (auto simp: goes_before_def sort_key_of_def less_prod_def)

lemma insert_sorted_comparator:
  "insert_sorted comparator x ys = insort_key sort_key_of x ys"
  by (induction ys) (simp_all add: comparator_le_iff)

lemma array_sort_comparator: "array_sort comparator xs = sort_key sort_key_of xs"
  by (induction xs) (simp_all add: array_sort_def insert_sorted_comparator)

lemma sort_key_snoc_sorted:
  fixes f :: "'a \<Rightarrow> 'k::linorder"
  shows "sort_key f (sort_key f p @ [x]) = sort_key f (p @ [x])"
proof (rule properties_for_sort_key [symmetric])
  show "mset (sort_key f (sort_key f p @ [x])) = mset (p @ [x])"
    by simp
  show "sorted (map f (sort_key f (sort_key f p @ [x])))"
    by simp
  show "\<And>k. k \<in> set (sort_key f (sort_key f p @ [x])) \<Longrightarrow>
          filter (\<lambda>y. f k = f y) (sort_key f (sort_key f p @ [x])) =
          filter (\<lambda>y. f k = f y) (p @ [x])"
  proof -
    fix k
    have "filter (\<lambda>y. f y = f k) (sort_key f (sort_key f p @ [x])) =
          filter (\<lambda>y. f y = f k) (sort_key f p @ [x])"
      by (rule sort_key_stable)
    also have "\<dots> = filter (\<lambda>y. f y = f k) (sort_key f p) @ filter (\<lambda>y. f y = f k) [x]"
      by simp
    also have "filter (\<lambda>y. f y = f k) (sort_key f p) = filter (\<lambda>y. f y = f k) p"
      by (rule sort_key_stable)
    finally have "filter (\<lambda>y. f y = f k) (sort_key f (sort_key f p @ [x])) =
                  filter (\<lambda>y. f y = f k) (p @ [x])"
      by simp
    moreover have "(\<lambda>y. f k = f y) = (\<lambda>y. f y = f k)"
      by auto
    ultimately show "filter (\<lambda>y. f k = f y) (sort_key f (sort_key f p @ [x])) =
          filter (\<lambda>y. f k = f y) (p @ [x])"
      by simp
  qed
qed

lemma enqueue_refines:
  "enqueue (sort_key sort_key_of p) x = sort_key sort_key_of (spec_enqueue p x)"
  by (simp only: enqueue_def spec_enqueue_def array_sort_comparator sort_key_snoc_sorted)

lemma sort_key_first_minimal:
  "p \<noteq> [] \<Longrightarrow>
   sort_key sort_key_of p =
     first_minimal p # sort_key sort_key_of (remove1 (first_minimal p) p)"
proof (induction p rule: first_minimal.induct)
  case 1
  then show ?case by simp
next
  case (2 x)
  then show ?case by simp
next
  case (3 x y ys)
  let ?m = "first_minimal (y # ys)"
  have ih: "sort_key sort_key_of (y # ys) =
              ?m # sort_key sort_key_of (remove1 ?m (y # ys))"
    using 3 by simp
  show ?case
  proof (cases "goes_before ?m x")
    case True
    then have lt: "sort_key_of ?m < sort_key_of x"
      by (simp add: goes_before_iff)
    then have ne: "x \<noteq> ?m"
      by auto
    from lt have nle: "\<not> sort_key_of x \<le> sort_key_of ?m"
      by (simp only: not_le)
    have fm: "first_minimal (x # y # ys) = ?m"
      using True by (simp add: Let_def)
    have "sort_key sort_key_of (x # y # ys) =
            insort_key sort_key_of x (?m # sort_key sort_key_of (remove1 ?m (y # ys)))"
      using ih by simp
    also have "\<dots> = ?m # insort_key sort_key_of x (sort_key sort_key_of (remove1 ?m (y # ys)))"
      using nle by (simp only: insort_key.simps if_False)
    also have "\<dots> = ?m # sort_key sort_key_of (remove1 ?m (x # y # ys))"
      using ne by simp
    finally show ?thesis
      using fm by simp
  next
    case False
    then have le: "sort_key_of x \<le> sort_key_of ?m"
      by (simp add: goes_before_iff)
    have fm: "first_minimal (x # y # ys) = x"
      using False by (simp add: Let_def)
    have "sort_key sort_key_of (x # y # ys) =
            insort_key sort_key_of x (?m # sort_key sort_key_of (remove1 ?m (y # ys)))"
      using ih by simp
    also have "\<dots> = x # ?m # sort_key sort_key_of (remove1 ?m (y # ys))"
      using le by simp
    also have "\<dots> = x # sort_key sort_key_of (y # ys)"
      using ih by simp
    finally show ?thesis
      using fm by simp
  qed
qed

lemma dequeue_refines:
  "dequeue (sort_key sort_key_of p) =
     (fst (spec_dequeue p), sort_key sort_key_of (snd (spec_dequeue p)))"
proof (cases "p = []")
  case True
  then show ?thesis by (simp add: dequeue_def spec_dequeue_def)
next
  case False
  then show ?thesis
    using sort_key_first_minimal [OF False] by (simp add: dequeue_def spec_dequeue_def)
qed

lemma run_queue_refines:
  "run_queue ops (sort_key sort_key_of p) =
     (fst (spec_run ops p), sort_key sort_key_of (snd (spec_run ops p)))"
proof (induction ops p rule: spec_run.induct)
  case (1 pending)
  then show ?case by simp
next
  case (2 x ops pending)
  then show ?case by (simp add: enqueue_refines)
next
  case (3 ops pending)
  then show ?case
    by (simp add: dequeue_refines split: prod.splits)
qed

lemma mset_enqueue: "mset (enqueue items x) = add_mset x (mset items)"
  by (simp add: enqueue_def array_sort_comparator)

lemma run_queue_conserves:
  "mset (returned (fst (run_queue ops items))) + mset (snd (run_queue ops items)) =
     mset items + mset (enqueued ops)"
proof (induction ops arbitrary: items)
  case Nil
  then show ?case by simp
next
  case (Cons op ops)
  show ?case
  proof (cases op)
    case (Enqueue x)
    then show ?thesis
      using Cons [of "enqueue items x"] by (simp add: mset_enqueue)
  next
    case Dequeue
    show ?thesis
    proof (cases items)
      case Nil
      then show ?thesis
        using Cons [of "[]"] Dequeue by (auto simp: dequeue_def split: prod.splits)
    next
      case (Cons x rest)
      then show ?thesis
        using Cons.IH [of rest] Dequeue by (auto simp: dequeue_def split: prod.splits)
    qed
  qed
qed

text \<open>
  What \<open>first_minimal\<close> picks: no pending entry goes before it, and every entry
  inserted earlier comes strictly after it in the order.
\<close>

lemma first_minimal_split:
  "p \<noteq> [] \<Longrightarrow>
   \<exists>pre post. p = pre @ first_minimal p # post \<and>
     (\<forall>y\<in>set pre. goes_before (first_minimal p) y) \<and>
     (\<forall>y\<in>set post. \<not> goes_before y (first_minimal p))"
proof (induction p rule: first_minimal.induct)
  case 1
  then show ?case by simp
next
  case (2 x)
  show ?case by (rule exI [of _ "[]"]) simp
next
  case (3 x y ys)
  let ?m = "first_minimal (y # ys)"
  from 3 obtain pre post where
    split: "y # ys = pre @ ?m # post" and
    pre: "\<forall>z\<in>set pre. goes_before ?m z" and
    post: "\<forall>z\<in>set post. \<not> goes_before z ?m"
    by auto
  show ?case
  proof (cases "goes_before ?m x")
    case True
    then have fm: "first_minimal (x # y # ys) = ?m"
      by (simp add: Let_def)
    have "x # y # ys = (x # pre) @ ?m # post"
      using split by simp
    moreover have "\<forall>z\<in>set (x # pre). goes_before ?m z"
      using pre True by simp
    ultimately show ?thesis
      unfolding fm using post by blast
  next
    case False
    then have fm: "first_minimal (x # y # ys) = x"
      by (simp add: Let_def)
    have le: "sort_key_of x \<le> sort_key_of ?m"
      using False by (simp add: goes_before_iff)
    have "\<not> goes_before z x" if "z \<in> set (y # ys)" for z
    proof -
      have "z \<in> set pre \<or> z = ?m \<or> z \<in> set post"
        using that split by (metis Un_iff set_ConsD set_append)
      then have "sort_key_of ?m \<le> sort_key_of z"
        using pre post by (auto simp: goes_before_iff)
      then show ?thesis
        using le by (simp add: goes_before_iff)
    qed
    then have "\<forall>z\<in>set (y # ys). \<not> goes_before z x"
      by blast
    moreover have "x # y # ys = [] @ x # (y # ys)"
      by simp
    ultimately show ?thesis
      unfolding fm by (metis empty_iff empty_set)
  qed
qed

text \<open>
  Claim C1. Whatever the sequence of enqueue and dequeue operations on the queue of
  index.js, every dequeue returns what the specification's scheduler returns: the
  pending entry of least priority rank (HIGH 0, MEDIUM 1, LOW 2), then of least
  created_time, the earliest inserted one among equals, and the empty signal when
  nothing is pending. The entry that the next dequeue takes from the array is one that
  no entry left in the array goes before. The array holds the pending entries, and the
  entries returned together with the entries still in the array are exactly the entries
  enqueued, each as often as it was enqueued: none is returned twice and none is dropped.
\<close>

theorem C1_dequeue_order:
  "fst (run_queue ops []) = fst (spec_run ops []) \<and>
   snd (run_queue ops []) = array_sort comparator (snd (spec_run ops [])) \<and>
   (dequeue (snd (run_queue ops [])) = (Some x, rest) \<longrightarrow>
      snd (run_queue ops []) = x # rest \<and> (\<forall>y\<in>set rest. \<not> goes_before y x)) \<and>
   mset (returned (fst (run_queue ops []))) + mset (snd (run_queue ops [])) =
     mset (enqueued ops) \<and>
   dequeue [] = (None, [])"
proof -
  have "run_queue ops (sort_key sort_key_of []) =
          (fst (spec_run ops []), sort_key sort_key_of (snd (spec_run ops [])))"
    by (rule run_queue_refines)
  then have "run_queue ops [] =
          (fst (spec_run ops []), array_sort comparator (snd (spec_run ops [])))"
    by (simp add: array_sort_comparator)
  moreover have "mset (returned (fst (run_queue ops []))) + mset (snd (run_queue ops [])) =
     mset (enqueued ops)"
    using run_queue_conserves [of ops "[]"] by simp
  moreover have "snd (run_queue ops []) = x # rest \<and> (\<forall>y\<in>set rest. \<not> goes_before y x)"
    if "dequeue (snd (run_queue ops [])) = (Some x, rest)"
  proof -
    from that have items: "snd (run_queue ops []) = x # rest"
      by (auto simp: dequeue_def split: list.splits)
    have "sorted (map sort_key_of (snd (run_queue ops [])))"
      using run_queue_refines [of ops "[]"] by simp
    then have "\<forall>y\<in>set rest. sort_key_of x \<le> sort_key_of y"
      unfolding items by simp
    then have "\<forall>y\<in>set rest. \<not> goes_before y x"
      by (auto simp: goes_before_iff)
    with items show ?thesis
      by simp
  qed
  ultimately show ?thesis
    by (simp add: dequeue_def)
qed

theorem C1_dequeue_order_witness:
  "dequeue (snd (run_queue [Enqueue first_entry, Enqueue urgent_entry] [])) =
     (Some urgent_entry, [first_entry]) \<and>
   \<not> goes_before first_entry urgent_entry"
proof -
  have "enqueue (enqueue [] first_entry) urgent_entry = [urgent_entry, first_entry]"
    by (simp add: enqueue_def array_sort_def comparator_def first_entry_def urgent_entry_def)
  then have 1: "dequeue (snd (run_queue [Enqueue first_entry, Enqueue urgent_entry] [])) =
     (Some urgent_entry, [first_entry])"
    by (simp add: dequeue_def)
  from C1_dequeue_order [of "[Enqueue first_entry, Enqueue urgent_entry]" urgent_entry
      "[first_entry]"] 1
  have "\<forall>y\<in>set [first_entry]. \<not> goes_before y urgent_entry"
    by blast
  with 1 show ?thesis
    by simp
qed

section \<open>Properties of the status aggregator\<close>

lemma every_status_present:
  "list_all (\<lambda>b. batchStatuses st b \<noteq> None) bs \<Longrightarrow>
   every_status s (map (batchStatuses st) bs) =
     Inr (list_all (\<lambda>s'. s' = Some s) (map (batch_status st) bs))"
  by (induction bs) (auto simp: batch_status_def)

lemma some_status_present:
  "list_all (\<lambda>b. batchStatuses st b \<noteq> None) bs \<Longrightarrow>
   some_status s (map (batchStatuses st) bs) =
     Inr (list_ex (\<lambda>s'. s' = Some s) (map (batch_status st) bs))"
  by (induction bs) (auto simp: batch_status_def)

lemma updateIngestionStatus_present:
  assumes "ingestionJobs st i = Some job"
    and "list_all (\<lambda>b. batchStatuses st b \<noteq> None) (j_batches job)"
  shows "updateIngestionStatus i st =
     Inr (st\<lparr>ingestionJobs := (ingestionJobs st)(i \<mapsto>
            job\<lparr>j_status := aggregate (map (batch_status st) (j_batches job))\<rparr>)\<rparr>)"
  using assms(1)
  by (simp only: updateIngestionStatus_def Let_def every_status_present [OF assms(2)]
        some_status_present [OF assms(2)] aggregate_def option.case sum.case)

lemma every_status_cong:
  "map (map_option b_status) xs = map (map_option b_status) ys \<Longrightarrow>
   every_status s xs = every_status s ys"
proof (induction xs arbitrary: ys)
  case Nil
  then show ?case by simp
next
  case (Cons x xs)
  then obtain y ys' where ys: "ys = y # ys'"
    by (cases ys) auto
  with Cons.prems have hd: "map_option b_status x = map_option b_status y"
    and tl: "map (map_option b_status) xs = map (map_option b_status) ys'"
    by simp_all
  from hd Cons.IH [OF tl] show ?case
    unfolding ys by (cases x; cases y) simp_all
qed

lemma some_status_cong:
  "map (map_option b_status) xs = map (map_option b_status) ys \<Longrightarrow>
   some_status s xs = some_status s ys"
proof (induction xs arbitrary: ys)
  case Nil
  then show ?case by simp
next
  case (Cons x xs)
  then obtain y ys' where ys: "ys = y # ys'"
    by (cases ys) auto
  with Cons.prems have hd: "map_option b_status x = map_option b_status y"
    and tl: "map (map_option b_status) xs = map (map_option b_status) ys'"
    by simp_all
  from hd Cons.IH [OF tl] show ?case
    unfolding ys by (cases x; cases y) simp_all
qed

lemma aggregate_map:
  "aggregate (map f bs) =
     (if list_all (\<lambda>b. f b = Some yet_to_start) bs then yet_to_start
      else if list_ex (\<lambda>b. f b = Some triggered) bs then triggered
      else completed)"
proof -
  have "list_all (\<lambda>s'. s' = Some s) (map f bs) = list_all (\<lambda>b. f b = Some s) bs"
       "list_ex (\<lambda>s'. s' = Some s) (map f bs) = list_ex (\<lambda>b. f b = Some s) bs" for s
    by (induction bs) simp_all
  then show ?thesis
    by (simp only: aggregate_def)
qed

lemma updateIngestionStatus_idem:
  "updateIngestionStatus i st = Inr st' \<Longrightarrow> updateIngestionStatus i st' = Inr st'"
  by (auto simp: updateIngestionStatus_def Let_def split: option.splits sum.splits)

lemma recomputed_cong:
  assumes "ingestionJobs st1 i = Some job1" and "ingestionJobs st2 i = Some job2"
    and "map (batch_status st1) (j_batches job1) = map (batch_status st2) (j_batches job2)"
  shows "recomputed i st1 = recomputed i st2"
proof -
  have eq: "map (map_option b_status) (map (batchStatuses st1) (j_batches job1)) =
            map (map_option b_status) (map (batchStatuses st2) (j_batches job2))"
    using assms(3) by (simp add: batch_status_def [abs_def] comp_def)
  show ?thesis
    using assms(1,2) every_status_cong [OF eq] some_status_cong [OF eq]
    by (simp add: recomputed_def updateIngestionStatus_def Let_def split: sum.splits)
qed

text \<open>
  Claim C2. For a job whose batches are all in the store (the claim's jobs have at least
  one batch), \<open>updateIngestionStatus\<close> returns normally, leaves the batches alone and
  sets the job's status to \<open>yet_to_start\<close> if every batch is \<open>yet_to_start\<close>, else to
  \<open>triggered\<close> if some batch is \<open>triggered\<close>, else to \<open>completed\<close>. In particular
  a job with a completed batch whose other batches are completed or not yet started, none
  triggered, becomes \<open>completed\<close>.
\<close>

theorem C2_recompute_rule:
  assumes "ingestionJobs st i = Some job"
    and "j_batches job \<noteq> []"
    and "list_all (\<lambda>b. batchStatuses st b \<noteq> None) (j_batches job)"
  shows "\<exists>st'. updateIngestionStatus i st = Inr st' \<and>
      batchStatuses st' = batchStatuses st \<and>
      map_option j_status (ingestionJobs st' i) =
        Some (if list_all (\<lambda>b. batch_status st b = Some yet_to_start) (j_batches job)
              then yet_to_start
              else if list_ex (\<lambda>b. batch_status st b = Some triggered) (j_batches job)
              then triggered
              else completed) \<and>
      (list_ex (\<lambda>b. batch_status st b = Some completed) (j_batches job) \<and>
       list_all (\<lambda>b. batch_status st b = Some completed \<or>
                     batch_status st b = Some yet_to_start) (j_batches job) \<longrightarrow>
       map_option j_status (ingestionJobs st' i) = Some completed)"
proof -
  let ?st' = "st\<lparr>ingestionJobs := (ingestionJobs st)(i \<mapsto>
            job\<lparr>j_status := aggregate (map (batch_status st) (j_batches job))\<rparr>)\<rparr>"
  have upd: "updateIngestionStatus i st = Inr ?st'"
    using assms(1,3) by (rule updateIngestionStatus_present)
  note agg = aggregate_map [of "batch_status st"]
  have mix: "aggregate (map (batch_status st) bs) = completed"
    if "list_ex (\<lambda>b. batch_status st b = Some completed) bs"
      and "list_all (\<lambda>b. batch_status st b = Some completed \<or>
                     batch_status st b = Some yet_to_start) bs" for bs
  proof -
    from that(1) obtain c where c: "c \<in> set bs" "batch_status st c = Some completed"
      by (auto simp: list_ex_iff)
    then have "\<exists>b\<in>set bs. batch_status st b \<noteq> Some yet_to_start"
      by (intro bexI [of _ c]) simp_all
    then have "\<not> list_all (\<lambda>b. batch_status st b = Some yet_to_start) bs"
      by (simp add: list_all_iff)
    moreover have "\<not> list_ex (\<lambda>b. batch_status st b = Some triggered) bs"
      using that(2) by (auto simp: list_all_iff list_ex_iff)
    ultimately show ?thesis
      by (simp only: agg if_False)
  qed
  show ?thesis
  proof (intro exI conjI impI)
    show "updateIngestionStatus i st = Inr ?st'" by (rule upd)
    show "batchStatuses ?st' = batchStatuses st" by simp
    show "map_option j_status (ingestionJobs ?st' i) =
        Some (if list_all (\<lambda>b. batch_status st b = Some yet_to_start) (j_batches job)
              then yet_to_start
              else if list_ex (\<lambda>b. batch_status st b = Some triggered) (j_batches job)
              then triggered
              else completed)"
      by (simp add: agg)
    show "map_option j_status (ingestionJobs ?st' i) = Some completed"
      if "list_ex (\<lambda>b. batch_status st b = Some completed) (j_batches job) \<and>
       list_all (\<lambda>b. batch_status st b = Some completed \<or>
                     batch_status st b = Some yet_to_start) (j_batches job)"
      using that mix by simp
  qed
qed

theorem C2_recompute_rule_witness:
  "ingestionJobs example_store ''job'' \<noteq> None \<and>
   (\<exists>st'. updateIngestionStatus ''job'' example_store = Inr st' \<and>
      map_option j_status (ingestionJobs st' ''job'') = Some completed)"
proof -
  let ?job = "\<lparr>j_ingestion_id = ''job'', j_status = triggered,
           j_batches = [''b1'', ''b2''], j_priority = HIGH, j_created_time = 0\<rparr>"
  have 1: "ingestionJobs example_store ''job'' = Some ?job"
    by (simp add: example_store_def)
  have 2: "j_batches ?job \<noteq> []"
    by simp
  have 3: "list_all (\<lambda>b. batchStatuses example_store b \<noteq> None) (j_batches ?job)"
    by (simp add: example_store_def)
  have 4: "list_ex (\<lambda>b. batch_status example_store b = Some completed) (j_batches ?job) \<and>
       list_all (\<lambda>b. batch_status example_store b = Some completed \<or>
                     batch_status example_store b = Some yet_to_start) (j_batches ?job)"
    by (simp add: example_store_def batch_status_def)
  show ?thesis
    using C2_recompute_rule [OF 1 2 3] 1 4 by blast
qed

text \<open>
  Claim C9. Recomputing is idempotent: a second \<open>updateIngestionStatus\<close> on the state
  the first one returned changes nothing. The outcome is a function of the statuses of
  the job's batches alone: two states whose jobs list batches of the same statuses, in
  the same order, get the same job status (or the same exception), whatever the job's
  status was before.
\<close>

theorem C9_recompute_pure:
  "(updateIngestionStatus i st = Inr st' \<longrightarrow> updateIngestionStatus i st' = Inr st') \<and>
   (ingestionJobs st1 i = Some job1 \<and> ingestionJobs st2 i = Some job2 \<and>
    map (batch_status st1) (j_batches job1) = map (batch_status st2) (j_batches job2) \<longrightarrow>
    recomputed i st1 = recomputed i st2)"
  using updateIngestionStatus_idem recomputed_cong by blast

theorem C9_recompute_pure_witness:
  "(\<exists>st'. updateIngestionStatus ''job'' example_store = Inr st' \<and>
      updateIngestionStatus ''job'' st' = Inr st') \<and>
   recomputed ''job'' example_store =
     recomputed ''job'' (example_store\<lparr>ingestionJobs :=
        [''job'' \<mapsto> \<lparr>j_ingestion_id = ''job'', j_status = yet_to_start,
           j_batches = [''b1'', ''b2''], j_priority = HIGH, j_created_time = 0\<rparr>]\<rparr>)"
proof -
  let ?job = "\<lparr>j_ingestion_id = ''job'', j_status = triggered,
           j_batches = [''b1'', ''b2''], j_priority = HIGH, j_created_time = 0\<rparr>"
  let ?job2 = "\<lparr>j_ingestion_id = ''job'', j_status = yet_to_start,
           j_batches = [''b1'', ''b2''], j_priority = HIGH, j_created_time = 0\<rparr>"
  let ?st2 = "example_store\<lparr>ingestionJobs := [''job'' \<mapsto> ?job2]\<rparr>"
  have 1: "ingestionJobs example_store ''job'' = Some ?job"
    by (simp add: example_store_def)
  have 2: "list_all (\<lambda>b. batchStatuses example_store b \<noteq> None) (j_batches ?job)"
    by (simp add: example_store_def)
  obtain st' where 3: "updateIngestionStatus ''job'' example_store = Inr st'"
    using updateIngestionStatus_present [OF 1 2] by blast
  have 4: "ingestionJobs ?st2 ''job'' = Some ?job2"
    by simp
  have 5: "map (batch_status example_store) (j_batches ?job) =
           map (batch_status ?st2) (j_batches ?job2)"
    by (simp add: batch_status_def)
  show ?thesis
    using C9_recompute_pure [where i = "''job''" and st = example_store and st' = st'
        and ?st1.0 = example_store and ?job1.0 = ?job and ?st2.0 = ?st2 and ?job2.0 = ?job2]
      1 3 4 5
    by blast
qed

section \<open>Properties of the submission handler\<close>

lemma isInteger_iff: "isInteger x \<longleftrightarrow> x \<in> \<int>"
  unfolding isInteger_def by (metis Ints_cases Ints_of_int of_int_floor_cancel)

lemma valid_id_iff: "valid_id v \<longleftrightarrow> id_in_range v"
  by (cases v) (simp_all add: id_in_range_def isInteger_iff)

lemma includes_priority_Some_iff:
  "(\<exists>p. includes_priority v = Some p) \<longleftrightarrow>
     v = JStr ''HIGH'' \<or> v = JStr ''MEDIUM'' \<or> v = JStr ''LOW''"
  by (cases v) auto

lemma validate_Inr_iff: "(\<exists>r. validate req = Inr r) \<longleftrightarrow> valid_submission req"
proof (cases "req_ids req")
  case None
  then show ?thesis by (simp add: validate_def valid_submission_def)
next
  case (Some v)
  show ?thesis
  proof (cases v)
    case (JArr xs)
    have va: "list_all valid_id xs = list_all id_in_range xs"
      by (simp add: valid_id_iff [abs_def])
    show ?thesis
    proof (cases "req_priority req")
      case None
      then show ?thesis
        using Some JArr va by (simp add: validate_def valid_submission_def)
    next
      case (Some w)
      then show ?thesis
        using \<open>req_ids req = Some v\<close> JArr va includes_priority_Some_iff [of w]
        by (auto simp: validate_def valid_submission_def split: option.splits)
    qed
  qed (use Some in \<open>simp_all add: validate_def valid_submission_def\<close>)
qed

lemma ingest_rejects: "validate req = Inl msg \<Longrightarrow> ingest uuidv4 req st = (BadRequest msg, st)"
  by (simp add: ingest_def)

lemma ingest_accepts:
  "validate req = Inr (ids, p) \<Longrightarrow>
   ingest uuidv4 req st =
     (Accepted (fst (create_records uuidv4 ids p st)),
      start_if_idle (length (fst (snd (create_records uuidv4 ids p st))))
        (snd (snd (create_records uuidv4 ids p st))))"
  by (simp add: ingest_def split: prod.splits)

text \<open>
  Claim C6. The handler answers with the client error 400 exactly when the submission
  is not valid: \<open>ids\<close> is not a non-empty array of integers from 1 to 1000000007, or
  the priority, \<open>LOW\<close> when absent, is not one of \<open>HIGH\<close>, \<open>MEDIUM\<close>, \<open>LOW\<close>. A
  rejected submission leaves the whole state as it was: no job, no batch, nothing
  enqueued, no run started.
\<close>

theorem C6_rejection:
  "((\<exists>msg. fst (ingest uuidv4 req st) = BadRequest msg) \<longleftrightarrow> \<not> valid_submission req) \<and>
   (\<not> valid_submission req \<longrightarrow> snd (ingest uuidv4 req st) = st)"
proof (cases "validate req")
  case (Inl msg)
  then have "\<not> valid_submission req"
    using validate_Inr_iff [of req] by simp
  then show ?thesis
    using ingest_rejects [OF Inl, of uuidv4 st] by simp
next
  case (Inr r)
  then have v: "valid_submission req"
    using validate_Inr_iff [of req] by blast
  obtain ids p where "r = (ids, p)"
    by (cases r)
  then show ?thesis
    using ingest_accepts [of req ids p uuidv4 st] Inr v by simp
qed

theorem C6_rejection_witness:
  "\<not> valid_submission scenario_C \<and>
   ingest example_uuidv4 scenario_C (init 0) = (BadRequest ''Invalid IDs'', init 0)"
proof -
  have 1: "\<not> valid_submission scenario_C"
    by (simp add: valid_submission_def scenario_C_def id_in_range_def)
  have 2: "validate scenario_C = Inl ''Invalid IDs''"
    by (simp add: validate_def scenario_C_def isInteger_def)
  from C6_rejection [of example_uuidv4 scenario_C "init 0"] 1
  have "snd (ingest example_uuidv4 scenario_C (init 0)) = init 0"
    by blast
  moreover have "fst (ingest example_uuidv4 scenario_C (init 0)) = BadRequest ''Invalid IDs''"
    using 2 by (simp add: ingest_def)
  ultimately show ?thesis
    using 1 by (simp add: prod_eq_iff)
qed

lemma length_fresh [simp]: "length (fresh u c n) = n"
  by (induction n arbitrary: c) simp_all

lemma batch_loop_eq:
  "batch_loop u ids p ct jid i bs st =
     (bs @ fresh u (uuid_calls st) (length (slices ids i)),
      st\<lparr>uuid_calls := uuid_calls st + length (slices ids i),
         batchStatuses :=
           store_batches (zip (fresh u (uuid_calls st) (length (slices ids i))) (slices ids i))
             (batchStatuses st),
         queue :=
           foldl enqueue (queue st)
             (map (entry_of p ct jid)
               (zip (fresh u (uuid_calls st) (length (slices ids i))) (slices ids i)))\<rparr>)"
proof (induction u ids p ct jid i bs st rule: batch_loop.induct)
  case (1 u ids p ct jid i bs st)
  show ?case
  proof (cases "i < length ids")
    case False
    then show ?thesis
      by (simp add: batch_loop.simps [of u ids p ct jid i bs st] slices.simps [of ids i])
  next
    case True
    show ?thesis
      apply (subst batch_loop.simps)
      apply (subst (1 2 3 4 5 6) slices.simps [of ids i])
      apply (simp only: True if_True Let_def)
      apply (subst 1 [OF True refl refl refl])
      apply (simp add: entry_of_def)
      done
  qed
qed


lemma concat_slices: "i \<le> length ids \<Longrightarrow> concat (slices ids i) = drop i ids"
proof (induction ids i rule: slices.induct)
  case (1 ids i)
  show ?case
  proof (cases "i < length ids")
    case False
    then show ?thesis by (simp add: slices.simps [of ids i])
  next
    case True
    show ?thesis
    proof (cases "i + BATCH_SIZE \<le> length ids")
      case le: True
      have "concat (slices ids i) = take BATCH_SIZE (drop i ids) @ drop (i + BATCH_SIZE) ids"
        using True "1.IH" [OF True le] by (simp add: slices.simps [of ids i])
      also have "\<dots> = take BATCH_SIZE (drop i ids) @ drop BATCH_SIZE (drop i ids)"
        by (simp add: add.commute)
      finally show ?thesis by (simp only: append_take_drop_id)
    next
      case gt: False
      then have "slices ids (i + BATCH_SIZE) = []"
        by (simp add: slices.simps [of ids "i + BATCH_SIZE"])
      then show ?thesis
        using True gt by (simp add: slices.simps [of ids i])
    qed
  qed
qed

lemma slices_group: "g \<in> set (slices ids i) \<Longrightarrow> g \<noteq> [] \<and> length g \<le> BATCH_SIZE"
proof (induction ids i rule: slices.induct)
  case (1 ids i)
  show ?case
  proof (cases "i < length ids")
    case False
    then show ?thesis using 1(2) by (simp add: slices.simps [of ids i])
  next
    case True
    then have "g = take BATCH_SIZE (drop i ids) \<or> g \<in> set (slices ids (i + BATCH_SIZE))"
      using 1(2) by (simp add: slices.simps [of ids i])
    then show ?thesis
      using 1(1) [OF True] True by (auto simp: BATCH_SIZE_def)
  qed
qed

lemma slices_full:
  "Suc k < length (slices ids i) \<Longrightarrow> length (slices ids i ! k) = BATCH_SIZE"
proof (induction ids i arbitrary: k rule: slices.induct)
  case (1 ids i)
  show ?case
  proof (cases "i < length ids")
    case False
    then show ?thesis using 1(2) by (simp add: slices.simps [of ids i])
  next
    case True
    have sl: "slices ids i = take BATCH_SIZE (drop i ids) # slices ids (i + BATCH_SIZE)"
      using True by (simp add: slices.simps [of ids i])
    show ?thesis
    proof (cases k)
      case 0
      then have "slices ids (i + BATCH_SIZE) \<noteq> []"
        using 1(2) sl by auto
      then have "i + BATCH_SIZE < length ids"
        by (simp add: slices.simps [of ids "i + BATCH_SIZE"] split: if_splits)
      then show ?thesis
        using 0 sl by simp
    next
      case (Suc k')
      then show ?thesis
        using 1(1) [OF True, of k'] 1(2) sl by simp
    qed
  qed
qed

lemma set_fresh: "set (fresh u c n) = u ` {c..<c + n}"
proof (induction n arbitrary: c)
  case 0
  then show ?case by simp
next
  case (Suc n)
  have "{c..<c + Suc n} = insert c {Suc c..<Suc c + n}"
    by auto
  then show ?case
    using Suc [of "Suc c"] by simp
qed

lemma distinct_fresh: "inj u \<Longrightarrow> distinct (fresh u c n)"
proof (induction n arbitrary: c)
  case 0
  then show ?case by simp
next
  case (Suc n)
  then show ?case
    by (auto simp: set_fresh dest: injD)
qed

lemma store_batches_other:
  "b \<notin> fst ` set bgs \<Longrightarrow> store_batches bgs m b = m b"
  by (induction bgs arbitrary: m) auto

lemma store_batches_new:
  "distinct (map fst bgs) \<Longrightarrow> (b, g) \<in> set bgs \<Longrightarrow>
   store_batches bgs m b = Some \<lparr>b_batch_id = b, b_ids = g, b_status = yet_to_start\<rparr>"
proof (induction bgs arbitrary: m)
  case Nil
  then show ?case by simp
next
  case (Cons bg bgs)
  show ?case
  proof (cases "(b, g) = bg")
    case True
    then have "b \<notin> fst ` set bgs"
      using Cons.prems(1) by force
    then have "store_batches bgs m' b = m' b" for m'
      by (rule store_batches_other)
    then show ?thesis
      using True by auto
  next
    case False
    then show ?thesis
      using Cons by auto
  qed
qed

lemma create_records_eq:
  "create_records u ids p st =
     (u (uuid_calls st),
      fresh u (Suc (uuid_calls st)) (length (slices ids 0)),
      st\<lparr>uuid_calls := Suc (uuid_calls st) + length (slices ids 0),
         batchStatuses :=
           store_batches (zip (fresh u (Suc (uuid_calls st)) (length (slices ids 0)))
             (slices ids 0)) (batchStatuses st),
         queue :=
           foldl enqueue (queue st)
             (map (entry_of p (clock st) (u (uuid_calls st)))
               (zip (fresh u (Suc (uuid_calls st)) (length (slices ids 0))) (slices ids 0))),
         ingestionJobs := (ingestionJobs st)(u (uuid_calls st) \<mapsto>
           \<lparr>j_ingestion_id = u (uuid_calls st), j_status = yet_to_start,
            j_batches = fresh u (Suc (uuid_calls st)) (length (slices ids 0)),
            j_priority = p, j_created_time = clock st\<rparr>)\<rparr>)"
  by (simp add: create_records_def batch_loop_eq Let_def)

lemma mset_foldl_enqueue: "mset (foldl enqueue q es) = mset q + mset es"
  by (induction es arbitrary: q) (simp_all add: mset_enqueue)

lemma inj_example_uuidv4: "inj example_uuidv4"
proof (rule injI)
  fix m n
  assume "example_uuidv4 m = example_uuidv4 n"
  then have "length (example_uuidv4 m) = length (example_uuidv4 n)"
    by simp
  then show "m = n"
    by (simp add: example_uuidv4_def)
qed

lemma valid_id_number: "valid_id v \<Longrightarrow> v = JNum (of_int (number_of v)) \<and> 1 \<le> number_of v \<and> number_of v \<le> 1000000007"
proof (cases v)
  case (JNum x)
  assume "valid_id v"
  then have x: "of_int \<lfloor>x\<rfloor> = x" "1 \<le> x" "x \<le> 1000000007"
    using JNum by (simp_all add: isInteger_def)
  have 1: "1 \<le> number_of v"
    using x(2) JNum by simp
  have 2: "number_of v \<le> 1000000007"
    using x(3) JNum by (simp add: floor_le_iff)
  have 3: "v = JNum (of_int (number_of v))"
    using x(1) JNum by (simp only: number_of.simps)
  from 1 2 3 show ?thesis
    by (intro conjI)
qed simp_all

lemma validate_Inr:
  assumes "validate req = Inr (ids, p)"
  shows "ids \<noteq> [] \<and> req_ids req = Some (JArr (map (\<lambda>n. JNum (of_int n)) ids)) \<and>
         (\<forall>n\<in>set ids. 1 \<le> n \<and> n \<le> 1000000007) \<and>
         includes_priority (case req_priority req of None \<Rightarrow> JStr ''LOW'' | Some v \<Rightarrow> v) = Some p"
proof -
  from assms obtain xs where xs: "req_ids req = Some (JArr xs)" "xs \<noteq> []" "list_all valid_id xs"
     and ids: "ids = map number_of xs"
     and p: "includes_priority (case req_priority req of None \<Rightarrow> JStr ''LOW'' | Some v \<Rightarrow> v) = Some p"
    by (auto simp: validate_def Let_def split: option.splits json.splits if_splits)
  have "map (\<lambda>n. JNum (of_int n)) ids = xs"
    using xs(3) unfolding ids by (induction xs) (auto dest: valid_id_number)
  moreover have "\<forall>n\<in>set ids. 1 \<le> n \<and> n \<le> 1000000007"
    using xs(3) unfolding ids by (induction xs) (auto dest: valid_id_number)
  ultimately show ?thesis
    using xs ids p by simp
qed


lemma valid_submission_validate:
  "valid_submission req \<Longrightarrow> \<exists>ids p. validate req = Inr (ids, p)"
  using validate_Inr_iff [of req] by auto

text \<open>
  Claim C5. For a valid submission, with identifiers that \<open>uuidv4()\<close> never repeats, the
  handler accepts the ids and the priority of the request (\<open>LOW\<close> when absent), cuts the
  ids into groups whose concatenation is the list of ids, every group of one to three
  ids and every group but the last of exactly three, stores one batch per group with
  status \<open>yet_to_start\<close>, stores one job that lists the batch ids in the order of the
  groups with status \<open>yet_to_start\<close>, adds one queue entry per batch to the queue, and
  answers with the job's identifier. The run that the handler may start thereafter
  (\<open>start_if_idle\<close>) works on the state so created.
\<close>

theorem C5_valid_submission:
  assumes "valid_submission req" and "inj uuidv4"
  shows "\<exists>ids p jid batches st1 groups.
     validate req = Inr (ids, p) \<and>
     req_ids req = Some (JArr (map (\<lambda>n. JNum (of_int n)) ids)) \<and>
     includes_priority (case req_priority req of None \<Rightarrow> JStr ''LOW'' | Some v \<Rightarrow> v) = Some p \<and>
     create_records uuidv4 ids p st = (jid, batches, st1) \<and>
     ingest uuidv4 req st = (Accepted jid, start_if_idle (length batches) st1) \<and>
     concat groups = ids \<and>
     (\<forall>g\<in>set groups. g \<noteq> [] \<and> length g \<le> 3) \<and>
     (\<forall>k. Suc k < length groups \<longrightarrow> length (groups ! k) = 3) \<and>
     length batches = length groups \<and> distinct batches \<and>
     (\<forall>k<length groups. batchStatuses st1 (batches ! k) =
        Some \<lparr>b_batch_id = batches ! k, b_ids = groups ! k, b_status = yet_to_start\<rparr>) \<and>
     ingestionJobs st1 jid =
        Some \<lparr>j_ingestion_id = jid, j_status = yet_to_start, j_batches = batches,
              j_priority = p, j_created_time = clock st\<rparr> \<and>
     mset (queue st1) =
        mset (queue st) + mset (map (entry_of p (clock st) jid) (zip batches groups))"
proof -
  from assms(1) obtain ids p where v: "validate req = Inr (ids, p)"
    using valid_submission_validate by blast
  define groups where "groups = slices ids 0"
  define jid where "jid = uuidv4 (uuid_calls st)"
  define batches where "batches = fresh uuidv4 (Suc (uuid_calls st)) (length groups)"
  define st1 where "st1 = snd (snd (create_records uuidv4 ids p st))"
  have cr: "create_records uuidv4 ids p st = (jid, batches, st1)"
    unfolding st1_def jid_def batches_def groups_def by (simp add: create_records_eq)
  have st1: "batchStatuses st1 = store_batches (zip batches groups) (batchStatuses st)"
    "queue st1 = foldl enqueue (queue st) (map (entry_of p (clock st) jid) (zip batches groups))"
    "ingestionJobs st1 jid =
        Some \<lparr>j_ingestion_id = jid, j_status = yet_to_start, j_batches = batches,
              j_priority = p, j_created_time = clock st\<rparr>"
    unfolding st1_def jid_def batches_def groups_def by (simp_all add: create_records_eq)
  have len: "length batches = length groups"
    by (simp add: batches_def)
  have dist: "distinct batches"
    unfolding batches_def using assms(2) by (rule distinct_fresh)
  have stored: "batchStatuses st1 (batches ! k) =
        Some \<lparr>b_batch_id = batches ! k, b_ids = groups ! k, b_status = yet_to_start\<rparr>"
    if "k < length groups" for k
  proof -
    have "(batches ! k, groups ! k) \<in> set (zip batches groups)"
      using that len by (metis in_set_zip fst_conv snd_conv)
    moreover have "distinct (map fst (zip batches groups))"
      using dist len by simp
    ultimately show ?thesis
      unfolding st1(1) by (rule store_batches_new [rotated])
  qed
  have "concat groups = ids"
    unfolding groups_def by (simp add: concat_slices)
  moreover have "\<forall>g\<in>set groups. g \<noteq> [] \<and> length g \<le> 3"
    unfolding groups_def using slices_group [of _ ids 0] by (auto simp: BATCH_SIZE_def)
  moreover have "\<forall>k. Suc k < length groups \<longrightarrow> length (groups ! k) = 3"
    unfolding groups_def using slices_full [of _ ids 0] by (auto simp: BATCH_SIZE_def)
  moreover have "ingest uuidv4 req st = (Accepted jid, start_if_idle (length batches) st1)"
    using v cr by (simp add: ingest_def)
  moreover have "mset (queue st1) =
        mset (queue st) + mset (map (entry_of p (clock st) jid) (zip batches groups))"
    unfolding st1(2) by (rule mset_foldl_enqueue)
  ultimately show ?thesis
    using v validate_Inr [OF v] cr len dist stored st1(3) by blast
qed


lemma slices_scenario_A: "slices [1, 2, 3, 4 :: int] 0 = [[1, 2, 3], [4]]"
  by (simp add: slices.simps [of _ 0] slices.simps [of _ 3] slices.simps [of _ 6] BATCH_SIZE_def)

theorem C5_valid_submission_witness:
  "valid_submission scenario_A \<and> inj example_uuidv4 \<and>
   (\<exists>jid batches st1.
      ingest example_uuidv4 scenario_A (init 0) =
        (Accepted jid, start_if_idle (length batches) st1) \<and>
      map (\<lambda>b. map_option b_ids (batchStatuses st1 b)) batches = [Some [1, 2, 3], Some [4]] \<and>
      map (\<lambda>b. map_option b_status (batchStatuses st1 b)) batches =
        [Some yet_to_start, Some yet_to_start] \<and>
      map_option j_status (ingestionJobs st1 jid) = Some yet_to_start \<and>
      map_option j_batches (ingestionJobs st1 jid) = Some batches \<and>
      map e_ids (queue st1) = [[1, 2, 3], [4]])"
proof -
  have 1: "valid_submission scenario_A"
    by (simp add: valid_submission_def scenario_A_def id_in_range_def)
  have 2: "validate scenario_A = Inr ([1, 2, 3, 4], HIGH)"
    by (simp add: validate_def scenario_A_def isInteger_def)
  from C5_valid_submission [OF 1 inj_example_uuidv4, of "init 0"] 2
  obtain jid batches st1 where
    cr: "create_records example_uuidv4 [1, 2, 3, 4] HIGH (init 0) = (jid, batches, st1)" and
    ing: "ingest example_uuidv4 scenario_A (init 0) =
        (Accepted jid, start_if_idle (length batches) st1)"
    by auto
  let ?S = "\<lparr>ingestionJobs =
        [''u'' \<mapsto> \<lparr>j_ingestion_id = ''u'', j_status = yet_to_start,
            j_batches = [''uu'', ''uuu''], j_priority = HIGH, j_created_time = 0\<rparr>],
        batchStatuses =
          [''uu'' \<mapsto> \<lparr>b_batch_id = ''uu'', b_ids = [1, 2, 3], b_status = yet_to_start\<rparr>,
           ''uuu'' \<mapsto> \<lparr>b_batch_id = ''uuu'', b_ids = [4], b_status = yet_to_start\<rparr>],
        queue =
          enqueue (enqueue [] (entry_of HIGH 0 ''u'' (''uu'', [1, 2, 3])))
           (entry_of HIGH 0 ''u'' (''uuu'', [4])),
        lastProcessedTime = 0, clock = 0, uuid_calls = Suc (Suc (Suc 0)),
        runs = [], fetched = [], errors = []\<rparr>"
  have ev: "create_records example_uuidv4 [1, 2, 3, 4] HIGH (init 0) =
      (''u'', [''uu'', ''uuu''], ?S)"
    unfolding create_records_eq slices_scenario_A
    by (simp add: init_def example_uuidv4_def numeral_2_eq_2)
  have "(jid, batches, st1) = (''u'', [''uu'', ''uuu''], ?S)"
    by (rule trans [OF cr [symmetric] ev])
  then have "jid = ''u'' \<and> batches = [''uu'', ''uuu''] \<and> st1 = ?S"
    by (simp only: prod.inject)
  then have eqs: "jid = ''u''" "batches = [''uu'', ''uuu'']" "st1 = ?S"
    by (rule conjunct1, rule conjunct2 [THEN conjunct1], rule conjunct2 [THEN conjunct2])
  have "map e_ids (queue ?S) = [[1, 2, 3], [4]]"
    by (simp add: enqueue_def array_sort_def entry_of_def comparator_def)
  then show ?thesis
    using 1 inj_example_uuidv4 ing unfolding eqs
    by (intro conjI exI [of _ "''u''"] exI [of _ "[''uu'', ''uuu'']"] exI [of _ ?S])
      simp_all
qed

section \<open>Properties of the dispatcher\<close>

lemma updateIngestionStatus_frame:
  "updateIngestionStatus i st = Inr st' \<Longrightarrow> \<exists>m. st' = st\<lparr>ingestionJobs := m\<rparr>"
  by (auto simp: updateIngestionStatus_def Let_def split: option.splits sum.splits
      intro: exI [of _ "ingestionJobs st"])

lemma resume_LoopTest:
  "resume LoopTest r st =
     (if queue st = [] then set_run r Returned st
      else if clock st - lastProcessedTime st < RATE_LIMIT_MS
      then set_run r (AtGate (clock st + (RATE_LIMIT_MS - (clock st - lastProcessedTime st)))) st
      else resume AfterGate r st)"
  by (simp add: resume.simps(1) Let_def)

lemma resume_AfterGate_Nil:
  "queue st = [] \<Longrightarrow> resume AfterGate r st = set_run r (Threw TypeError) st"
  by (simp add: resume.simps(2) dequeue_def)

lemma resume_AfterGate_Cons:
  "queue st = b # items \<Longrightarrow>
   resume AfterGate r st =
     (case updateIngestionStatus (e_ingestion_id b)
             (set_batch_status b triggered (st\<lparr>queue := items\<rparr>)) of
        Inl e \<Rightarrow> set_run r (Threw e) (set_batch_status b triggered (st\<lparr>queue := items\<rparr>))
      | Inr st2 \<Rightarrow> resume (NextItem b (e_ids b)) r st2)"
  by (simp add: resume.simps(2) dequeue_def Let_def)

lemma resume_NextItem_Nil: "resume (NextItem b []) r st = resume (AfterItems b) r st"
  by (simp add: resume.simps(3))

lemma resume_NextItem_Cons:
  "resume (NextItem b (item # rest)) r st =
     set_run r (InItem b item rest) (st\<lparr>fetched := fetched st @ [(e_batch_id b, item)]\<rparr>)"
  by (simp add: resume.simps(3))

lemma resume_AfterItems:
  "resume (AfterItems b) r st =
     (case updateIngestionStatus (e_ingestion_id b) (set_batch_status b completed st) of
        Inl e \<Rightarrow> set_run r (Threw e) (set_batch_status b completed st)
      | Inr st2 \<Rightarrow> resume LoopTest r (st2\<lparr>lastProcessedTime := clock st2\<rparr>))"
  by (simp add: resume.simps(4) Let_def)

lemma resume_induct2 [case_names LoopTest AfterGate NextItem AfterItems]:
  assumes "\<And>r st.
      (queue st \<noteq> [] \<Longrightarrow> \<not> clock st - lastProcessedTime st < RATE_LIMIT_MS \<Longrightarrow>
         P AfterGate r st) \<Longrightarrow> P LoopTest r st"
    and "\<And>r st.
      (\<And>b items st2. queue st = b # items \<Longrightarrow>
         updateIngestionStatus (e_ingestion_id b)
           (set_batch_status b triggered (st\<lparr>queue := items\<rparr>)) = Inr st2 \<Longrightarrow>
         P (NextItem b (e_ids b)) r st2) \<Longrightarrow> P AfterGate r st"
    and "\<And>b ids r st. (ids = [] \<Longrightarrow> P (AfterItems b) r st) \<Longrightarrow> P (NextItem b ids) r st"
    and "\<And>b r st.
      (\<And>st2. updateIngestionStatus (e_ingestion_id b) (set_batch_status b completed st) =
         Inr st2 \<Longrightarrow> P LoopTest r (st2\<lparr>lastProcessedTime := clock st2\<rparr>)) \<Longrightarrow>
      P (AfterItems b) r st"
  shows "P p (r::nat) st"
proof (induction p r st rule: resume.induct)
  case (1 r st)
  show ?case
    by (rule assms(1)) (rule 1, simp_all)
next
  case (2 r st)
  show ?case
  proof (rule assms(2))
    fix b items st2
    assume q: "queue st = b # items"
      and u: "updateIngestionStatus (e_ingestion_id b)
           (set_batch_status b triggered (st\<lparr>queue := items\<rparr>)) = Inr st2"
    show "P (NextItem b (e_ids b)) r st2"
      by (rule 2 [of "Some b" items b, OF _ refl refl u]) (simp add: dequeue_def q)
  qed
next
  case (3 b ids r st)
  show ?case
    by (rule assms(3)) (rule 3)
next
  case (4 b r st)
  show ?case
    by (rule assms(4)) (rule 4 [OF refl])
qed

lemma runs_resume:
  "length (runs (resume p r st)) = length (runs st) \<and>
   (\<forall>k. k \<noteq> r \<longrightarrow> runs (resume p r st) ! k = runs st ! k)"
proof (induction p r st rule: resume_induct2)
  case (LoopTest r st)
  then show ?case
    by (simp add: resume_LoopTest set_run_def)
next
  case (AfterGate r st)
  show ?case
  proof (cases "queue st")
    case Nil
    then show ?thesis
      by (simp add: resume_AfterGate_Nil set_run_def)
  next
    case (Cons b items)
    show ?thesis
    proof (cases "updateIngestionStatus (e_ingestion_id b)
           (set_batch_status b triggered (st\<lparr>queue := items\<rparr>))")
      case (Inl e)
      then show ?thesis
        using Cons by (simp add: resume_AfterGate_Cons set_run_def set_batch_status_def)
    next
      case (Inr st2)
      then have "runs st2 = runs st"
        using updateIngestionStatus_frame [OF Inr] by (auto simp: set_batch_status_def)
      then show ?thesis
        using AfterGate [OF Cons Inr] Cons Inr by (simp add: resume_AfterGate_Cons)
    qed
  qed
next
  case (NextItem b ids r st)
  then show ?case
    by (cases ids) (simp_all add: resume_NextItem_Nil resume_NextItem_Cons set_run_def)
next
  case (AfterItems b r st)
  show ?case
  proof (cases "updateIngestionStatus (e_ingestion_id b) (set_batch_status b completed st)")
    case (Inl e)
    then show ?thesis
      by (simp add: resume_AfterItems set_run_def set_batch_status_def)
  next
    case (Inr st2)
    then have "runs st2 = runs st"
      using updateIngestionStatus_frame [OF Inr] by (auto simp: set_batch_status_def)
    then show ?thesis
      using AfterItems [OF Inr] Inr by (simp add: resume_AfterItems)
  qed
qed

lemma validate_scenario_A: "validate scenario_A = Inr ([1, 2, 3, 4], HIGH)"
  by (simp add: validate_def scenario_A_def isInteger_def)

lemma length_foldl_enqueue: "length (foldl enqueue q es) = length q + length es"
proof -
  have "size (mset (foldl enqueue q es)) = size (mset q + mset es)"
    by (simp only: mset_foldl_enqueue)
  then show ?thesis
    by simp
qed

lemma create_records_frame:
  assumes "create_records u ids p st = (jid, batches, st1)"
  shows "runs st1 = runs st \<and> clock st1 = clock st \<and>
         lastProcessedTime st1 = lastProcessedTime st \<and>
         fetched st1 = fetched st \<and> errors st1 = errors st \<and>
         length (queue st1) = length (queue st) + length batches"
proof -
  show ?thesis
    using assms unfolding create_records_eq by (auto simp: length_foldl_enqueue)
qed

text \<open>
  Claim C8. On an accepted submission the handler starts a new run of
  \<open>processBatches\<close> exactly when, after the batches were enqueued, the length of the queue
  equals the number of batches of the submission, which is the case exactly when the
  queue was empty before. A started run is a new last element of \<open>runs\<close> and the runs
  that existed are left as they were; otherwise the state is the one the creation of the
  records left, with the new entries in the queue and no run added.
\<close>

theorem C8_single_flight:
  assumes "validate req = Inr (ids, p)"
    and "create_records uuidv4 ids p st = (jid, batches, st1)"
  shows "snd (ingest uuidv4 req st) = start_if_idle (length batches) st1 \<and>
     (length (queue st1) = length batches \<longleftrightarrow> queue st = []) \<and>
     (length (queue st1) = length batches \<longrightarrow>
        snd (ingest uuidv4 req st) =
          resume LoopTest (length (runs st)) (st1\<lparr>runs := runs st @ [Running]\<rparr>) \<and>
        length (runs (snd (ingest uuidv4 req st))) = Suc (length (runs st)) \<and>
        take (length (runs st)) (runs (snd (ingest uuidv4 req st))) = runs st) \<and>
     (length (queue st1) \<noteq> length batches \<longrightarrow>
        snd (ingest uuidv4 req st) = st1 \<and> runs st1 = runs st \<and>
        length (queue st1) = length (queue st) + length batches)"
proof -
  note fr = create_records_frame [OF assms(2)]
  have ing: "snd (ingest uuidv4 req st) = start_if_idle (length batches) st1"
    using assms by (simp add: ingest_def)
  have iff: "length (queue st1) = length batches \<longleftrightarrow> queue st = []"
    using fr by simp
  let ?n = "length (runs st)"
  let ?st' = "resume LoopTest ?n (st1\<lparr>runs := runs st @ [Running]\<rparr>)"
  have len: "length (runs ?st') = Suc ?n"
    using runs_resume [of LoopTest ?n "st1\<lparr>runs := runs st @ [Running]\<rparr>"] by simp
  have "take ?n (runs ?st') = runs st"
  proof (rule nth_equalityI)
    show "length (take ?n (runs ?st')) = length (runs st)"
      using len by simp
    fix k
    assume "k < length (take ?n (runs ?st'))"
    then have k: "k < ?n"
      by simp
    then have "runs ?st' ! k = (runs st @ [Running]) ! k"
      using runs_resume [of LoopTest ?n "st1\<lparr>runs := runs st @ [Running]\<rparr>"] by simp
    then show "take ?n (runs ?st') ! k = runs st ! k"
      using k by (simp add: nth_append)
  qed
  then have started: "length (queue st1) = length batches \<longrightarrow>
        snd (ingest uuidv4 req st) = ?st' \<and>
        length (runs (snd (ingest uuidv4 req st))) = Suc ?n \<and>
        take ?n (runs (snd (ingest uuidv4 req st))) = runs st"
    using ing len fr by (simp add: start_if_idle_def)
  have "length (queue st1) \<noteq> length batches \<longrightarrow>
        snd (ingest uuidv4 req st) = st1 \<and> runs st1 = runs st \<and>
        length (queue st1) = length (queue st) + length batches"
    using ing fr by (simp add: start_if_idle_def)
  with ing iff started show ?thesis
    by blast
qed

theorem C8_single_flight_witness:
  "validate scenario_A = Inr ([1, 2, 3, 4], HIGH) \<and>
   queue (init 0) = [] \<and>
   length (runs (snd (ingest example_uuidv4 scenario_A (init 0)))) = Suc 0"
proof -
  obtain jid batches st1 where
    cr: "create_records example_uuidv4 [1, 2, 3, 4] HIGH (init 0) = (jid, batches, st1)"
    by (cases "create_records example_uuidv4 [1, 2, 3, 4] HIGH (init 0)")
  have q: "queue (init 0) = []" and r: "runs (init 0) = []"
    by (simp_all add: init_def)
  from C8_single_flight [OF validate_scenario_A cr]
  have "length (runs (snd (ingest example_uuidv4 scenario_A (init 0)))) =
          Suc (length (runs (init 0)))"
    using q by blast
  then show ?thesis
    using validate_scenario_A q r by simp
qed

section \<open>Entries of equal priority and creation time\<close>

lemma same_key_iff:
  "e_priority e = p \<and> e_created_time e = t \<longleftrightarrow> sort_key_of e = (priorityOrder p, t)"
  by (cases "e_priority e"; cases p) (auto simp: sort_key_of_def)

lemma filter_same_key:
  "filter (\<lambda>e. e_priority e = p \<and> e_created_time e = t) xs =
   filter (\<lambda>e. sort_key_of e = (priorityOrder p, t)) xs"
  by (simp only: same_key_iff)

lemma filter_key_enqueue:
  "filter (\<lambda>e. sort_key_of e = k) (enqueue q x) = filter (\<lambda>e. sort_key_of e = k) (q @ [x])"
  unfolding enqueue_def array_sort_comparator by (rule sort_key_stable)

lemma filter_key_foldl_enqueue:
  "filter (\<lambda>e. sort_key_of e = k) (foldl enqueue q es) =
   filter (\<lambda>e. sort_key_of e = k) (q @ es)"
proof (induction es arbitrary: q)
  case Nil
  then show ?case by simp
next
  case (Cons x es)
  have "filter (\<lambda>e. sort_key_of e = k) (foldl enqueue q (x # es)) =
        filter (\<lambda>e. sort_key_of e = k) (enqueue q x @ es)"
    using Cons [of "enqueue q x"] by simp
  also have "\<dots> = filter (\<lambda>e. sort_key_of e = k) ((q @ [x]) @ es)"
    unfolding filter_append filter_key_enqueue ..
  finally show ?case by simp
qed

lemma filter_key_run_queue:
  "filter (\<lambda>e. sort_key_of e = k) (returned (fst (run_queue ops q)) @ snd (run_queue ops q)) =
   filter (\<lambda>e. sort_key_of e = k) (q @ enqueued ops)"
proof (induction ops arbitrary: q)
  case Nil
  then show ?case by simp
next
  case (Cons op ops)
  show ?case
  proof (cases op)
    case (Enqueue x)
    have "filter (\<lambda>e. sort_key_of e = k) (enqueue q x @ enqueued ops) =
          filter (\<lambda>e. sort_key_of e = k) ((q @ [x]) @ enqueued ops)"
      unfolding filter_append filter_key_enqueue ..
    then show ?thesis
      using Cons [of "enqueue q x"] Enqueue by simp
  next
    case Dequeue
    show ?thesis
    proof (cases q)
      case Nil
      then show ?thesis
        using Cons [of "[]"] Dequeue by (auto simp: dequeue_def split: prod.splits)
    next
      case (Cons x rest)
      then show ?thesis
        using Cons.IH [of rest] Dequeue by (auto simp: dequeue_def split: prod.splits)
    qed
  qed
qed

text \<open>
  Claim C10. The comparator returns 0 on two entries of equal priority and equal
  created_time. Through any sequence of enqueue and dequeue operations on any queue, the
  entries of one priority and one created_time are returned, and then left in the array,
  in the order in which they stood in the queue and were enqueued. The entries that the
  handler enqueues for one submission all have the submission's priority and creation
  time, and they stand in the queue, behind the older entries of that priority and time,
  in the order of the groups of ids: so the batches of a job are taken from the queue in
  the order of their groups.
\<close>

theorem C10_same_key_fifo:
  "(e_priority a = e_priority b \<and> e_created_time a = e_created_time b \<longrightarrow>
      comparator a b = 0) \<and>
   filter (\<lambda>e. e_priority e = p \<and> e_created_time e = t)
     (returned (fst (run_queue ops q)) @ snd (run_queue ops q)) =
   filter (\<lambda>e. e_priority e = p \<and> e_created_time e = t) (q @ enqueued ops) \<and>
   (create_records uuidv4 ids pr st = (jid, batches, st1) \<longrightarrow>
      filter (\<lambda>e. e_priority e = pr \<and> e_created_time e = clock st) (queue st1) =
      filter (\<lambda>e. e_priority e = pr \<and> e_created_time e = clock st) (queue st) @
        map (entry_of pr (clock st) jid) (zip batches (slices ids 0)))"
proof (intro conjI impI)
  assume "e_priority a = e_priority b \<and> e_created_time a = e_created_time b"
  then show "comparator a b = 0"
    by (simp add: comparator_def)
next
  show "filter (\<lambda>e. e_priority e = p \<and> e_created_time e = t)
     (returned (fst (run_queue ops q)) @ snd (run_queue ops q)) =
   filter (\<lambda>e. e_priority e = p \<and> e_created_time e = t) (q @ enqueued ops)"
    unfolding filter_same_key by (rule filter_key_run_queue)
next
  assume cr: "create_records uuidv4 ids pr st = (jid, batches, st1)"
  let ?new = "map (entry_of pr (clock st) jid) (zip batches (slices ids 0))"
  have q: "queue st1 = foldl enqueue (queue st) ?new"
    using cr unfolding create_records_eq by auto
  have "filter (\<lambda>e. e_priority e = pr \<and> e_created_time e = clock st) ?new = ?new"
    by (rule filter_True) (auto simp: entry_of_def)
  then show "filter (\<lambda>e. e_priority e = pr \<and> e_created_time e = clock st) (queue st1) =
      filter (\<lambda>e. e_priority e = pr \<and> e_created_time e = clock st) (queue st) @ ?new"
    unfolding q filter_same_key filter_key_foldl_enqueue by simp
qed

theorem C10_same_key_fifo_witness:
  "e_priority first_entry = e_priority second_entry \<and>
   e_created_time first_entry = e_created_time second_entry \<and>
   comparator first_entry second_entry = 0 \<and>
   run_queue [Enqueue first_entry, Enqueue second_entry, Dequeue, Dequeue] [] =
     ([Some first_entry, Some second_entry], [])"
proof -
  have 1: "e_priority first_entry = e_priority second_entry \<and>
     e_created_time first_entry = e_created_time second_entry"
    by (simp add: first_entry_def second_entry_def)
  have 2: "comparator first_entry second_entry = 0"
    using C10_same_key_fifo [of first_entry second_entry] 1 by blast
  have 3: "comparator second_entry first_entry \<le> 0"
    by (simp add: comparator_def first_entry_def second_entry_def)
  have "enqueue (enqueue [] first_entry) second_entry = [first_entry, second_entry]"
    using 2 3 by (simp add: enqueue_def array_sort_def)
  then have "run_queue [Enqueue first_entry, Enqueue second_entry, Dequeue, Dequeue] [] =
     ([Some first_entry, Some second_entry], [])"
    by (simp add: dequeue_def)
  with 1 2 show ?thesis
    by blast
qed

section \<open>Batch statuses never move backwards\<close>

lemma advanced_refl: "advanced m m"
  by (simp add: advanced_def)

lemma advanced_trans: "advanced m1 m2 \<Longrightarrow> advanced m2 m3 \<Longrightarrow> advanced m1 m3"
  unfolding advanced_def by (meson le_trans)

lemma store_inv_set_run:
  "store_inv u q m rs c \<Longrightarrow> in_flight_started m v \<Longrightarrow> store_inv u q m (rs[r := v]) c"
  unfolding store_inv_def using set_update_subset_insert [of rs r v] by auto

lemma store_inv_new_run: "store_inv u q m rs c \<Longrightarrow> store_inv u q m (rs @ [Running]) c"
  unfolding store_inv_def by auto

lemma in_flight_started_mono:
  "advanced m m' \<Longrightarrow> in_flight_started m r \<Longrightarrow> in_flight_started m' r"
proof (cases r)
  case (InItem b item rest)
  assume a: "advanced m m'" and "in_flight_started m r"
  then obtain x where x: "m (e_batch_id b) = Some x" "b_status x \<noteq> yet_to_start"
    using InItem by (auto simp: started_def)
  then obtain x' where "m' (e_batch_id b) = Some x'"
      "status_rank (b_status x) \<le> status_rank (b_status x')"
    using a unfolding advanced_def by blast
  moreover have "0 < status_rank (b_status x)"
    using x(2) by (cases "b_status x") simp_all
  ultimately have "\<exists>x'. m' (e_batch_id b) = Some x' \<and> b_status x' \<noteq> yet_to_start"
    by (cases "b_status x'") auto
  then show ?thesis
    using InItem by (simp add: started_def)
qed simp_all

lemma store_inv_dequeue:
  assumes "store_inv u (b # items) m rs c"
  defines "m' \<equiv> m(e_batch_id b \<mapsto>
      \<lparr>b_batch_id = e_batch_id b, b_ids = e_ids b, b_status = triggered\<rparr>)"
  shows "store_inv u items m' rs c \<and> advanced m m' \<and> started m' b"
proof -
  from assms(1) obtain x where x: "m (e_batch_id b) = Some x" "b_status x = yet_to_start"
    unfolding store_inv_def by auto
  have adv: "advanced m m'"
    unfolding advanced_def m'_def using x by auto
  have notin: "e_batch_id b \<notin> e_batch_id ` set items"
    using assms(1) unfolding store_inv_def by auto
  have "\<forall>e\<in>set items. \<exists>x. m' (e_batch_id e) = Some x \<and> b_status x = yet_to_start"
  proof
    fix e
    assume e: "e \<in> set items"
    then have "e_batch_id e \<in> e_batch_id ` set items"
      by (rule imageI)
    then have "e_batch_id e \<noteq> e_batch_id b"
      using notin by metis
    then show "\<exists>x. m' (e_batch_id e) = Some x \<and> b_status x = yet_to_start"
      using assms(1) e unfolding store_inv_def m'_def by auto
  qed
  moreover have "\<forall>r\<in>set rs. in_flight_started m' r"
    using assms(1) in_flight_started_mono [OF adv] unfolding store_inv_def by blast
  moreover have "dom m' \<subseteq> u ` {..<c}"
    using assms(1) x unfolding store_inv_def m'_def by auto
  moreover have "distinct (map e_batch_id items)"
    using assms(1) unfolding store_inv_def by auto
  moreover have "started m' b"
    by (simp add: started_def m'_def)
  ultimately show ?thesis
    using adv unfolding store_inv_def by blast
qed

lemma store_inv_complete:
  assumes "store_inv u q m rs c" and "started m b"
  defines "m' \<equiv> m(e_batch_id b \<mapsto>
      \<lparr>b_batch_id = e_batch_id b, b_ids = e_ids b, b_status = completed\<rparr>)"
  shows "store_inv u q m' rs c \<and> advanced m m'"
proof -
  from assms(2) obtain x where x: "m (e_batch_id b) = Some x" "b_status x \<noteq> yet_to_start"
    unfolding started_def by auto
  have adv: "advanced m m'"
  proof -
    have "status_rank s \<le> 2" for s
      by (cases s) simp_all
    then show ?thesis
      unfolding advanced_def m'_def by auto
  qed
  have "\<forall>e\<in>set q. \<exists>x. m' (e_batch_id e) = Some x \<and> b_status x = yet_to_start"
  proof
    fix e
    assume e: "e \<in> set q"
    then obtain y where y: "m (e_batch_id e) = Some y" "b_status y = yet_to_start"
      using assms(1) unfolding store_inv_def by blast
    then have "e_batch_id e \<noteq> e_batch_id b"
      using x by auto
    then show "\<exists>x. m' (e_batch_id e) = Some x \<and> b_status x = yet_to_start"
      using y unfolding m'_def by auto
  qed
  moreover have "\<forall>r\<in>set rs. in_flight_started m' r"
    using assms(1) in_flight_started_mono [OF adv] unfolding store_inv_def by blast
  moreover have "dom m' \<subseteq> u ` {..<c}"
    using assms(1) x unfolding store_inv_def m'_def by auto
  moreover have "distinct (map e_batch_id q)"
    using assms(1) unfolding store_inv_def by auto
  ultimately show ?thesis
    using adv unfolding store_inv_def by blast
qed


lemma state_inv_set_run:
  "state_inv u st \<Longrightarrow> in_flight_started (batchStatuses st) v \<Longrightarrow>
   state_inv u (set_run r v st) \<and>
   advanced (batchStatuses st) (batchStatuses (set_run r v st)) \<and>
   uuid_calls (set_run r v st) = uuid_calls st"
  by (simp add: state_inv_def set_run_def store_inv_set_run advanced_refl)

lemma resume_inv:
  assumes "state_inv u st" and "point_ok (batchStatuses st) p"
  shows "state_inv u (resume p r st) \<and>
         advanced (batchStatuses st) (batchStatuses (resume p r st)) \<and>
         uuid_calls (resume p r st) = uuid_calls st"
  using assms
proof (induction p r st rule: resume_induct2)
  case (LoopTest r st)
  show ?case
  proof (cases "queue st = [] \<or> clock st - lastProcessedTime st < RATE_LIMIT_MS")
    case True
    then show ?thesis
      using state_inv_set_run [OF LoopTest(2)] by (auto simp: resume_LoopTest)
  next
    case False
    then show ?thesis
      using LoopTest by (simp add: resume_LoopTest)
  qed
next
  case (AfterGate r st)
  show ?case
  proof (cases "queue st")
    case Nil
    then show ?thesis
      using state_inv_set_run [OF AfterGate(2)] by (simp add: resume_AfterGate_Nil)
  next
    case (Cons b items)
    let ?st1 = "set_batch_status b triggered (st\<lparr>queue := items\<rparr>)"
    have deq: "store_inv u items (batchStatuses ?st1) (runs st) (uuid_calls st)"
         "advanced (batchStatuses st) (batchStatuses ?st1)"
         "started (batchStatuses ?st1) b"
      using store_inv_dequeue [of u b items "batchStatuses st" "runs st" "uuid_calls st"]
        AfterGate(2) Cons
      by (simp_all add: state_inv_def set_batch_status_def)
    have inv1: "state_inv u ?st1"
      using deq(1) by (simp add: state_inv_def set_batch_status_def)
    show ?thesis
    proof (cases "updateIngestionStatus (e_ingestion_id b) ?st1")
      case (Inl e)
      have "resume AfterGate r st = set_run r (Threw e) ?st1"
        using Cons Inl by (simp add: resume_AfterGate_Cons)
      then show ?thesis
        using state_inv_set_run [OF inv1, of "Threw e" r] deq(2)
        by (auto intro: advanced_trans simp: set_batch_status_def)
    next
      case (Inr st2)
      obtain jm where st2: "st2 = ?st1\<lparr>ingestionJobs := jm\<rparr>"
        using updateIngestionStatus_frame [OF Inr] by blast
      have inv2: "state_inv u st2"
        using inv1 by (simp add: st2 state_inv_def set_batch_status_def)
      have ok2: "point_ok (batchStatuses st2) (NextItem b (e_ids b))"
        using deq(3) by (simp add: st2 set_batch_status_def)
      have bs2: "batchStatuses st2 = batchStatuses ?st1" "uuid_calls st2 = uuid_calls st"
        by (simp_all add: st2 set_batch_status_def)
      have "resume AfterGate r st = resume (NextItem b (e_ids b)) r st2"
        using Cons Inr by (simp add: resume_AfterGate_Cons)
      then show ?thesis
        using AfterGate(1) [OF Cons Inr inv2 ok2] deq(2) bs2
        by (auto intro: advanced_trans)
    qed
  qed
next
  case (NextItem b ids r st)
  show ?case
  proof (cases ids)
    case Nil
    then show ?thesis
      using NextItem by (simp add: resume_NextItem_Nil)
  next
    case (Cons item rest)
    let ?st1 = "st\<lparr>fetched := fetched st @ [(e_batch_id b, item)]\<rparr>"
    have "state_inv u ?st1"
      using NextItem(2) by (simp add: state_inv_def)
    moreover have "in_flight_started (batchStatuses ?st1) (InItem b item rest)"
      using NextItem(3) by simp
    ultimately show ?thesis
      using state_inv_set_run [of u ?st1 "InItem b item rest" r] Cons
      by (simp add: resume_NextItem_Cons)
  qed
next
  case (AfterItems b r st)
  let ?st1 = "set_batch_status b completed st"
  have fin: "store_inv u (queue st) (batchStatuses ?st1) (runs st) (uuid_calls st)"
       "advanced (batchStatuses st) (batchStatuses ?st1)"
    using store_inv_complete [of u "queue st" "batchStatuses st" "runs st" "uuid_calls st" b]
      AfterItems(2,3)
    by (simp_all add: state_inv_def set_batch_status_def)
  have inv1: "state_inv u ?st1"
    using fin(1) by (simp add: state_inv_def set_batch_status_def)
  show ?case
  proof (cases "updateIngestionStatus (e_ingestion_id b) ?st1")
    case (Inl e)
    have "resume (AfterItems b) r st = set_run r (Threw e) ?st1"
      using Inl by (simp add: resume_AfterItems)
    then show ?thesis
      using state_inv_set_run [OF inv1, of "Threw e" r] fin(2)
      by (auto intro: advanced_trans simp: set_batch_status_def)
  next
    case (Inr st2)
    obtain jm where st2: "st2 = ?st1\<lparr>ingestionJobs := jm\<rparr>"
      using updateIngestionStatus_frame [OF Inr] by blast
    let ?st3 = "st2\<lparr>lastProcessedTime := clock st2\<rparr>"
    have inv3: "state_inv u ?st3"
      using inv1 by (simp add: st2 state_inv_def set_batch_status_def)
    have ok3: "point_ok (batchStatuses ?st3) LoopTest"
      by simp
    have bs3: "batchStatuses ?st3 = batchStatuses ?st1" "uuid_calls ?st3 = uuid_calls st"
      by (simp_all add: st2 set_batch_status_def)
    have "resume (AfterItems b) r st = resume LoopTest r ?st3"
      using Inr by (simp add: resume_AfterItems)
    then show ?thesis
      using AfterItems(1) [OF Inr inv3 ok3] fin(2) bs3
      by (auto intro: advanced_trans)
  qed
qed


lemma set_foldl_enqueue: "set (foldl enqueue q es) = set q \<union> set es"
proof -
  have "set_mset (mset (foldl enqueue q es)) = set_mset (mset q + mset es)"
    by (simp only: mset_foldl_enqueue)
  then show ?thesis
    by simp
qed

lemma distinct_foldl_enqueue:
  "distinct (map f (foldl enqueue q es)) \<longleftrightarrow> distinct (map f (q @ es))"
proof -
  have "mset (map f (foldl enqueue q es)) = mset (map f (q @ es))"
    by (simp add: mset_foldl_enqueue)
  then show ?thesis
    by (rule mset_eq_imp_distinct_iff)
qed

lemma store_inv_create:
  fixes p :: priority and t :: int and jid :: uuid
  assumes "inj u" and "store_inv u q m rs c" and "length groups = n"
  defines "new \<equiv> fresh u (Suc c) n"
  defines "m' \<equiv> store_batches (zip new groups) m"
  defines "q' \<equiv> foldl enqueue q (map (entry_of p t jid) (zip new groups))"
  shows "store_inv u q' m' rs (Suc c + n) \<and>
         (\<forall>b x. m b = Some x \<longrightarrow> m' b = Some x) \<and>
         (\<forall>b y. m b = None \<longrightarrow> m' b = Some y \<longrightarrow> b_status y = yet_to_start)"
proof -
  have len: "length new = length groups"
    by (simp add: new_def assms(3))
  have fst_zip: "map fst (zip new groups) = new"
    using len by (simp add: map_fst_zip)
  have set_new: "set new = u ` {Suc c..<Suc c + n}"
    by (simp add: new_def set_fresh)
  have dist_new: "distinct new"
    unfolding new_def using assms(1) by (rule distinct_fresh)
  have dom_m: "dom m \<subseteq> u ` {..<c}"
    using assms(2) by (simp add: store_inv_def)
  have fresh_new: "b \<notin> dom m" if "b \<in> set new" for b
  proof
    assume "b \<in> dom m"
    then obtain i where i: "b = u i" "i < c"
      using dom_m by auto
    from that obtain k where k: "b = u k" "Suc c \<le> k"
      unfolding set_new by auto
    from i k assms(1) show False
      by (auto dest: injD)
  qed
  have old: "m' b = m b" if "b \<notin> set new" for b
    unfolding m'_def using that fst_zip
    by (intro store_batches_other) (metis list.set_map)
  have new: "\<exists>g. m' b = Some \<lparr>b_batch_id = b, b_ids = g, b_status = yet_to_start\<rparr>"
    if "b \<in> set new" for b
  proof -
    from that obtain g where "(b, g) \<in> set (zip new groups)"
      using fst_zip by (metis (no_types, lifting) imageE list.set_map prod.collapse)
    then show ?thesis
      unfolding m'_def using store_batches_new [of "zip new groups" b g m] dist_new fst_zip
      by auto
  qed
  have keep: "\<forall>b x. m b = Some x \<longrightarrow> m' b = Some x"
    using old fresh_new by (metis domI)
  have created: "\<forall>b y. m b = None \<longrightarrow> m' b = Some y \<longrightarrow> b_status y = yet_to_start"
  proof (intro allI impI)
    fix b y
    assume "m b = None" and y: "m' b = Some y"
    then have "b \<in> set new"
      using old by force
    then show "b_status y = yet_to_start"
      using new y by force
  qed
  have adv: "advanced m m'"
    unfolding advanced_def using keep by auto
  have ids_new: "map e_batch_id (map (entry_of p t jid) (zip new groups)) = new"
    using fst_zip by (simp add: entry_of_def comp_def)
  have q_dom: "e_batch_id ` set q \<subseteq> dom m"
    using assms(2) unfolding store_inv_def by auto
  have "distinct (map e_batch_id q')"
  proof -
    have "distinct (map e_batch_id q)"
      using assms(2) by (simp add: store_inv_def)
    moreover have "set (map e_batch_id q) \<inter> set new = {}"
      using q_dom fresh_new by auto
    ultimately show ?thesis
      unfolding q'_def distinct_foldl_enqueue using dist_new ids_new by simp
  qed
  moreover have "\<forall>e\<in>set q'. \<exists>x. m' (e_batch_id e) = Some x \<and> b_status x = yet_to_start"
  proof
    fix e
    assume "e \<in> set q'"
    then consider "e \<in> set q" | "e \<in> set (map (entry_of p t jid) (zip new groups))"
      unfolding q'_def set_foldl_enqueue by blast
    then show "\<exists>x. m' (e_batch_id e) = Some x \<and> b_status x = yet_to_start"
    proof cases
      case 1
      then show ?thesis
        using assms(2) keep unfolding store_inv_def by blast
    next
      case 2
      then have "e_batch_id e \<in> set (map e_batch_id (map (entry_of p t jid) (zip new groups)))"
        by (metis imageI list.set_map)
      then have "e_batch_id e \<in> set new"
        by (simp only: ids_new)
      then show ?thesis
        using new by force
    qed
  qed
  moreover have "\<forall>r\<in>set rs. in_flight_started m' r"
    using assms(2) in_flight_started_mono [OF adv] unfolding store_inv_def by blast
  moreover have "dom m' \<subseteq> u ` {..<Suc c + n}"
  proof
    fix b
    assume "b \<in> dom m'"
    then have "b \<in> dom m \<or> b \<in> set new"
      using old by (metis domD domI)
    then show "b \<in> u ` {..<Suc c + n}"
      using dom_m set_new by auto
  qed
  ultimately show ?thesis
    using keep created unfolding store_inv_def by blast
qed

lemma create_records_inv:
  assumes "inj u" and "state_inv u st" and "create_records u ids p st = (jid, batches, st1)"
  shows "state_inv u st1 \<and>
         (\<forall>b x. batchStatuses st b = Some x \<longrightarrow> batchStatuses st1 b = Some x) \<and>
         (\<forall>b y. batchStatuses st b = None \<longrightarrow> batchStatuses st1 b = Some y \<longrightarrow>
            b_status y = yet_to_start)"
proof -
  have "st1 = snd (snd (create_records u ids p st))"
    using assms(3) by simp
  then show ?thesis
    unfolding create_records_eq
    using store_inv_create [OF assms(1) assms(2) [unfolded state_inv_def] refl,
        where groups = "slices ids 0" and p = p and t = "clock st"
          and jid = "u (uuid_calls st)"]
    by (simp add: state_inv_def)
qed

lemma start_if_idle_inv:
  assumes "state_inv u st"
  shows "state_inv u (start_if_idle n st) \<and>
         advanced (batchStatuses st) (batchStatuses (start_if_idle n st))"
proof (cases "length (queue st) = n")
  case True
  let ?st = "st\<lparr>runs := runs st @ [Running]\<rparr>"
  have "state_inv u ?st"
    using assms by (simp add: state_inv_def store_inv_new_run)
  moreover have "point_ok (batchStatuses ?st) LoopTest"
    by simp
  ultimately show ?thesis
    using resume_inv [of u ?st LoopTest "length (runs st)"] True
    by (simp add: start_if_idle_def)
next
  case False
  then show ?thesis
    using assms by (simp add: start_if_idle_def advanced_refl)
qed

lemma ingest_inv:
  assumes "inj u" and "state_inv u st"
  shows "state_inv u (snd (ingest u req st)) \<and>
         advanced (batchStatuses st) (batchStatuses (snd (ingest u req st)))"
proof (cases "validate req")
  case (Inl msg)
  then show ?thesis
    using assms(2) by (simp add: ingest_def advanced_refl)
next
  case (Inr r)
  obtain ids p where r: "r = (ids, p)"
    by (cases r)
  obtain jid batches st1 where cr: "create_records u ids p st = (jid, batches, st1)"
    by (cases "create_records u ids p st")
  have inv1: "state_inv u st1" and keep: "advanced (batchStatuses st) (batchStatuses st1)"
    using create_records_inv [OF assms cr] by (auto simp: advanced_def)
  have "snd (ingest u req st) = start_if_idle (length batches) st1"
    using Inr r cr by (simp add: ingest_def)
  then show ?thesis
    using start_if_idle_inv [OF inv1, of "length batches"] keep
    by (auto intro: advanced_trans)
qed

lemma fire_inv:
  assumes "inj u" and "state_inv u st" and "fire u ev st = Some st'"
  shows "state_inv u st' \<and> advanced (batchStatuses st) (batchStatuses st')"
proof (cases ev)
  case (PostIngest req)
  then show ?thesis
    using assms ingest_inv [OF assms(1,2), of req] by auto
next
  case (GetStatus i)
  then show ?thesis
    using assms by (auto simp: advanced_refl)
next
  case (Tick d)
  then show ?thesis
    using assms by (auto simp: advanced_refl state_inv_def)
next
  case (TimerFired r)
  then have "st' = resume AfterGate r st"
    using assms(3) by (auto split: if_splits run.splits)
  then show ?thesis
    using resume_inv [OF assms(2), of AfterGate r] by simp
next
  case (FetchSettled r ok)
  then obtain b item rest where run: "r < length (runs st)" "runs st ! r = InItem b item rest"
    and st': "st' = resume (NextItem b rest) r
          (if ok then st else st\<lparr>errors := errors st @ [(e_batch_id b, item)]\<rparr>)"
    using assms(3) by (auto split: if_splits run.splits)
  let ?st = "if ok then st else st\<lparr>errors := errors st @ [(e_batch_id b, item)]\<rparr>"
  have "InItem b item rest \<in> set (runs st)"
    using run by (metis nth_mem)
  then have "started (batchStatuses st) b"
    using assms(2) unfolding state_inv_def store_inv_def by force
  then have "point_ok (batchStatuses ?st) (NextItem b rest)"
    by simp
  moreover have "state_inv u ?st"
    using assms(2) by (simp add: state_inv_def)
  moreover have "batchStatuses ?st = batchStatuses st"
    by simp
  ultimately show ?thesis
    using resume_inv [of u ?st "NextItem b rest" r] st' by simp
qed

lemma run_events_inv:
  assumes "inj u" and "state_inv u st" and "run_events u evs st = Some st'"
  shows "state_inv u st' \<and> advanced (batchStatuses st) (batchStatuses st')"
  using assms(2,3)
proof (induction evs arbitrary: st)
  case Nil
  then show ?case by (simp add: advanced_refl)
next
  case (Cons ev evs)
  from Cons.prems(2) obtain st1 where 1: "fire u ev st = Some st1"
    and 2: "run_events u evs st1 = Some st'"
    by (auto split: option.splits)
  from fire_inv [OF assms(1) Cons.prems(1) 1] Cons.IH [OF _ 2] show ?case
    by (auto intro: advanced_trans)
qed

lemma state_inv_init: "state_inv u (init t0)"
  by (simp add: state_inv_def store_inv_def init_def)

text \<open>
  Claim C3. Let \<open>uuidv4()\<close> never return the same identifier twice. In every state the
  server reaches from its start by requests, clock ticks, timers and settled fetches, and
  after every further sequence of such events, a batch that was in the store is still in
  the store and its status has not moved backwards in the order \<open>yet_to_start\<close>,
  \<open>triggered\<close>, \<open>completed\<close>: a triggered batch is never \<open>yet_to_start\<close> again and a
  completed batch stays completed. The handler's creation of records leaves the batches
  that exist as they are and stores every new batch as \<open>yet_to_start\<close>; status queries,
  clock ticks and rejected requests change no batch; so only \<open>processBatches\<close> changes
  the status of a batch.
\<close>

theorem C3_status_monotonic:
  assumes "inj uuidv4"
    and "run_events uuidv4 evs (init t0) = Some st"
  shows "(run_events uuidv4 evs' st = Some st' \<and> batchStatuses st b = Some x \<longrightarrow>
           (\<exists>x'. batchStatuses st' b = Some x' \<and>
              status_rank (b_status x) \<le> status_rank (b_status x') \<and>
              (b_status x = triggered \<longrightarrow> b_status x' \<noteq> yet_to_start) \<and>
              (b_status x = completed \<longrightarrow> b_status x' = completed))) \<and>
         (create_records uuidv4 ids p st = (jid, batches, st1) \<longrightarrow>
           (batchStatuses st b = Some x \<longrightarrow> batchStatuses st1 b = Some x) \<and>
           (batchStatuses st b = None \<and> batchStatuses st1 b = Some y \<longrightarrow>
              b_status y = yet_to_start)) \<and>
         batchStatuses (the (fire uuidv4 (GetStatus i) st)) = batchStatuses st \<and>
         batchStatuses (the (fire uuidv4 (Tick d) st)) = batchStatuses st \<and>
         (validate req = Inl msg \<longrightarrow>
            batchStatuses (the (fire uuidv4 (PostIngest req) st)) = batchStatuses st)"
proof -
  have inv: "state_inv uuidv4 st"
    using run_events_inv [OF assms(1) state_inv_init assms(2)] by simp
  have mono: "\<exists>x'. batchStatuses st' b = Some x' \<and>
              status_rank (b_status x) \<le> status_rank (b_status x') \<and>
              (b_status x = triggered \<longrightarrow> b_status x' \<noteq> yet_to_start) \<and>
              (b_status x = completed \<longrightarrow> b_status x' = completed)"
    if "run_events uuidv4 evs' st = Some st'" and x: "batchStatuses st b = Some x"
  proof -
    have "advanced (batchStatuses st) (batchStatuses st')"
      using run_events_inv [OF assms(1) inv that(1)] by simp
    then obtain x' where x': "batchStatuses st' b = Some x'"
      "status_rank (b_status x) \<le> status_rank (b_status x')"
      using x unfolding advanced_def by blast
    have "b_status x = triggered \<longrightarrow> b_status x' \<noteq> yet_to_start"
      using x'(2) by (cases "b_status x'") auto
    moreover have "b_status x = completed \<longrightarrow> b_status x' = completed"
      using x'(2) by (cases "b_status x'") auto
    ultimately show ?thesis
      using x' by blast
  qed
  have create: "(batchStatuses st b = Some x \<longrightarrow> batchStatuses st1 b = Some x) \<and>
           (batchStatuses st b = None \<and> batchStatuses st1 b = Some y \<longrightarrow>
              b_status y = yet_to_start)"
    if "create_records uuidv4 ids p st = (jid, batches, st1)"
    using create_records_inv [OF assms(1) inv that] by blast
  have "validate req = Inl msg \<longrightarrow>
            batchStatuses (the (fire uuidv4 (PostIngest req) st)) = batchStatuses st"
    by (simp add: ingest_def)
  then show ?thesis
    using mono create by simp
qed

section \<open>Runs of the server on concrete requests\<close>

lemmas eval_simps =
  ingest_def validate_def isInteger_def create_records_eq start_if_idle_def
  resume_LoopTest resume_AfterGate_Nil resume_AfterGate_Cons resume_NextItem_Nil
  resume_NextItem_Cons resume_AfterItems set_run_def set_batch_status_def
  updateIngestionStatus_def Let_def init_def example_uuidv4_def enqueue_def array_sort_def
  comparator_def entry_of_def RATE_LIMIT_MS_def dequeue_def BATCH_SIZE_def
  numeral_2_eq_2 numeral_3_eq_3

lemma slices_eval:
  "slices [1, 2, 3, 4 :: int] 0 = [[1, 2, 3], [4]]"
  "slices [1, 2, 3 :: int] 0 = [[1, 2, 3]]"
  "slices [5 :: int] 0 = [[5]]"
  by (simp_all add: slices.simps [of _ 0] slices.simps [of _ 3] slices.simps [of _ 6]
      BATCH_SIZE_def)

theorem C3_status_monotonic_witness:
  "inj example_uuidv4 \<and>
   (\<exists>st st' x x'.
      run_events example_uuidv4 [PostIngest scenario_A] (init 10000) = Some st \<and>
      run_events example_uuidv4
        [FetchSettled 0 True, FetchSettled 0 False, FetchSettled 0 True] st = Some st' \<and>
      batchStatuses st ''uu'' = Some x \<and> b_status x = triggered \<and>
      batchStatuses st' ''uu'' = Some x' \<and> b_status x' \<noteq> yet_to_start)"
proof -
  let ?S1 = "snd (ingest example_uuidv4 scenario_A (init 10000))"
  let ?evs = "[FetchSettled 0 True, FetchSettled 0 False, FetchSettled 0 True]"
  let ?x = "\<lparr>b_batch_id = ''uu'', b_ids = [1, 2, 3], b_status = triggered\<rparr>"
  have 1: "run_events example_uuidv4 [PostIngest scenario_A] (init 10000) = Some ?S1"
    by simp
  have 2: "batchStatuses ?S1 ''uu'' = Some ?x"
    by (simp add: eval_simps scenario_A_def slices_eval)
  have "\<exists>S2. run_events example_uuidv4 ?evs ?S1 = Some S2"
    by (simp add: eval_simps scenario_A_def slices_eval)
  then obtain S2 where 3: "run_events example_uuidv4 ?evs ?S1 = Some S2"
    by blast
  have 4: "b_status ?x = triggered"
    by simp
  have "\<exists>x'. batchStatuses S2 ''uu'' = Some x' \<and> b_status x' \<noteq> yet_to_start"
    using C3_status_monotonic [OF inj_example_uuidv4 1, of ?evs S2 "''uu''" ?x] 2 3 4
    by blast
  then obtain x' where "batchStatuses S2 ''uu'' = Some x'" "b_status x' \<noteq> yet_to_start"
    by blast
  with 1 2 3 inj_example_uuidv4 show ?thesis
    by (intro conjI exI [of _ ?S1] exI [of _ S2] exI [of _ ?x] exI [of _ x']) simp_all
qed

section \<open>The rate limit and runs that overlap\<close>

text \<open>
  Within one run the gate works: at the loop test a run that finds a queued batch less
  than 5000 ms after \<open>lastProcessedTime\<close> waits for a timer that is due 5000 ms after
  \<open>lastProcessedTime\<close>, and the timer does not fire before it is due.
\<close>

lemma gate_waits:
  "queue st \<noteq> [] \<Longrightarrow> clock st - lastProcessedTime st < RATE_LIMIT_MS \<Longrightarrow>
   resume LoopTest r st = set_run r (AtGate (lastProcessedTime st + RATE_LIMIT_MS)) st"
  by (simp add: resume_LoopTest add.commute)

lemma timer_not_early:
  "fire u (TimerFired r) st = Some st' \<Longrightarrow> runs st ! r = AtGate due \<Longrightarrow> due \<le> clock st"
  by (auto split: if_splits)

text \<open>
  Claim C4, evaluated on the code. The server is idle and \<open>lastProcessedTime\<close> is 0. A
  first submission starts a run, which dispatches its batch at once and waits for the first
  item. 100 ms later a second submission finds the queue empty, so the handler starts a
  second run: its gate compares the clock with \<open>lastProcessedTime\<close>, which is still 0
  because the first batch has not completed, and the second batch is dispatched 100 ms
  after the first one, while the first one is still in the state \<open>triggered\<close>.
\<close>

theorem C4_second_run_not_gated:
  "map_option
     (\<lambda>s. (map_option b_status (batchStatuses s ''uu''),
           map_option b_status (batchStatuses s ''uuuu''),
           fetched s, lastProcessedTime s, clock s, length (runs s)))
     (run_events example_uuidv4
        [PostIngest first_submission, Tick 100, PostIngest second_submission] (init 10000)) =
   Some (Some triggered, Some triggered, [(''uu'', 1), (''uuuu'', 5)], 0, 10100, 2)"
  by (simp add: eval_simps first_submission_def second_submission_def slices_eval)

section \<open>Failures of single items\<close>

lemma items_done_frame:
  "length oks = length ids \<Longrightarrow>
   queue (items_done b r ids oks st) = queue st \<and>
   clock (items_done b r ids oks st) = clock st \<and>
   ingestionJobs (items_done b r ids oks st) = ingestionJobs st \<and>
   batchStatuses (items_done b r ids oks st) = batchStatuses st \<and>
   length (runs (items_done b r ids oks st)) = length (runs st) \<and>
   fetched (items_done b r ids oks st) = fetched st @ map (Pair (e_batch_id b)) ids \<and>
   errors (items_done b r ids oks st) = errors st @ map (Pair (e_batch_id b)) (failed ids oks)"
proof (induction ids arbitrary: oks st)
  case Nil
  then show ?case by simp
next
  case (Cons item rest)
  then obtain ok oks' where oks: "oks = ok # oks'" "length oks' = length rest"
    by (cases oks) auto
  show ?case
    unfolding oks using Cons.IH [OF oks(2)]
    by (simp add: Let_def set_run_def)
qed

lemma items_loop_runs:
  "r < length (runs st) \<Longrightarrow> length oks = length ids \<Longrightarrow>
   run_events u (map (FetchSettled r) oks) (resume (NextItem b ids) r st) =
     Some (resume (AfterItems b) r (items_done b r ids oks st))"
proof (induction ids arbitrary: oks st)
  case Nil
  then show ?case by (simp add: resume_NextItem_Nil)
next
  case (Cons item rest)
  then obtain ok oks' where oks: "oks = ok # oks'" "length oks' = length rest"
    by (cases oks) auto
  let ?s1 = "set_run r (InItem b item rest)
               (st\<lparr>fetched := fetched st @ [(e_batch_id b, item)]\<rparr>)"
  let ?s2 = "if ok then ?s1 else ?s1\<lparr>errors := errors ?s1 @ [(e_batch_id b, item)]\<rparr>"
  have run: "r < length (runs ?s1)" "runs ?s1 ! r = InItem b item rest"
    using Cons.prems(1) by (simp_all add: set_run_def)
  have fire: "fire u (FetchSettled r ok) ?s1 = Some (resume (NextItem b rest) r ?s2)"
    using run by simp
  have r2: "r < length (runs ?s2)"
    using run(1) by simp
  have "run_events u (map (FetchSettled r) oks) (resume (NextItem b (item # rest)) r st) =
        run_events u (map (FetchSettled r) oks') (resume (NextItem b rest) r ?s2)"
    unfolding oks resume_NextItem_Cons using fire by simp
  also have "\<dots> = Some (resume (AfterItems b) r (items_done b r rest oks' ?s2))"
    by (rule Cons.IH [OF r2 oks(2)])
  finally show ?case
    unfolding oks by (simp add: Let_def)
qed

lemma resume_AfterItems_explicit:
  "resume (AfterItems b) r st =
     (case updateIngestionStatus (e_ingestion_id b) (set_batch_status b completed st) of
        Inl e \<Rightarrow> set_run r (Threw e) (set_batch_status b completed st)
      | Inr st2 \<Rightarrow>
          if queue st = [] then set_run r Returned (st2\<lparr>lastProcessedTime := clock st2\<rparr>)
          else set_run r (AtGate (clock st + RATE_LIMIT_MS))
                 (st2\<lparr>lastProcessedTime := clock st2\<rparr>))"
proof (cases "updateIngestionStatus (e_ingestion_id b) (set_batch_status b completed st)")
  case (Inl e)
  then show ?thesis
    by (simp add: resume_AfterItems)
next
  case (Inr st2)
  obtain jm where st2: "st2 = (set_batch_status b completed st)\<lparr>ingestionJobs := jm\<rparr>"
    using updateIngestionStatus_frame [OF Inr] by blast
  have "queue st2 = queue st" "clock st2 = clock st"
    by (simp_all add: st2 set_batch_status_def)
  then show ?thesis
    using Inr by (simp add: resume_AfterItems resume_LoopTest RATE_LIMIT_MS_def)
qed

lemma recomputed_only_store:
  "ingestionJobs s = ingestionJobs s' \<Longrightarrow> batchStatuses s = batchStatuses s' \<Longrightarrow>
   recomputed i s = recomputed i s'"
  by (simp add: recomputed_def updateIngestionStatus_def Let_def
      split: option.splits sum.splits)

lemma after_items_facts:
  fixes b :: entry
  assumes "r < length (runs st)"
  defines "st' \<equiv> resume (AfterItems b) r st"
  shows "fetched st' = fetched st \<and> errors st' = errors st \<and>
     map_option b_status (batchStatuses st' (e_batch_id b)) = Some completed \<and>
     runs st' ! r =
       (case recomputed (e_ingestion_id b) (set_batch_status b completed st) of
          Inl e \<Rightarrow> Threw e
        | Inr s \<Rightarrow> if queue st = [] then Returned else AtGate (clock st + RATE_LIMIT_MS))"
proof (cases "updateIngestionStatus (e_ingestion_id b) (set_batch_status b completed st)")
  case (Inl e)
  then show ?thesis
    using assms(1) unfolding st'_def resume_AfterItems_explicit
    by (simp add: set_run_def set_batch_status_def recomputed_def)
next
  case (Inr st2)
  obtain jm where st2: "st2 = (set_batch_status b completed st)\<lparr>ingestionJobs := jm\<rparr>"
    using updateIngestionStatus_frame [OF Inr] by blast
  show ?thesis
    using assms(1) Inr unfolding st'_def resume_AfterItems_explicit
    by (simp add: set_run_def set_batch_status_def recomputed_def st2)
qed

text \<open>
  Claim C7. A run enters the loop over the ids of a dispatched batch, and the fetches
  are settled one after the other, each fulfilled or rejected in any pattern. Then every
  settlement is accepted by the run, every id has been passed to \<open>fetchExternalData\<close>
  exactly once and in order, the rejected ids and nothing else have been logged, the run
  has gone on to the statement after the loop (line 76), the batch is \<open>completed\<close>, and
  the run has returned (empty queue) or waits at the rate limit for the next batch,
  whatever the pattern of failures; it ends with an exception only if
  \<open>updateIngestionStatus\<close> throws, which does not depend on the fetches.
\<close>

theorem C7_item_failures:
  assumes "r < length (runs st)" and "length oks = length ids"
  shows "(queue st0 = b # items \<and>
      updateIngestionStatus (e_ingestion_id b)
        (set_batch_status b triggered (st0\<lparr>queue := items\<rparr>)) = Inr st \<longrightarrow>
      resume AfterGate r st0 = resume (NextItem b (e_ids b)) r st) \<and>
    (\<exists>st'.
      run_events uuidv4 (map (FetchSettled r) oks) (resume (NextItem b ids) r st) = Some st' \<and>
      st' = resume (AfterItems b) r (items_done b r ids oks st) \<and>
      fetched st' = fetched st @ map (Pair (e_batch_id b)) ids \<and>
      errors st' = errors st @ map (Pair (e_batch_id b)) (failed ids oks) \<and>
      map_option b_status (batchStatuses st' (e_batch_id b)) = Some completed \<and>
      runs st' ! r =
        (case recomputed (e_ingestion_id b) (set_batch_status b completed st) of
           Inl e \<Rightarrow> Threw e
         | Inr s \<Rightarrow> if queue st = [] then Returned else AtGate (clock st + RATE_LIMIT_MS)))"
proof -
  let ?d = "items_done b r ids oks st"
  note fr = items_done_frame [OF assms(2), of b r st]
  have r: "r < length (runs ?d)"
    using fr assms(1) by simp
  have rec: "recomputed (e_ingestion_id b) (set_batch_status b completed ?d) =
             recomputed (e_ingestion_id b) (set_batch_status b completed st)"
    using fr by (intro recomputed_only_store) (simp_all add: set_batch_status_def)
  have q: "queue ?d = queue st" and c: "clock ?d = clock st"
    using fr by simp_all
  note facts = after_items_facts [OF r, of b, unfolded rec q c]
  have "queue st0 = b # items \<and>
      updateIngestionStatus (e_ingestion_id b)
        (set_batch_status b triggered (st0\<lparr>queue := items\<rparr>)) = Inr st \<longrightarrow>
      resume AfterGate r st0 = resume (NextItem b (e_ids b)) r st"
    by (simp add: resume_AfterGate_Cons)
  then show ?thesis
    using items_loop_runs [OF assms, of uuidv4 b] facts fr
    by simp
qed

theorem C7_item_failures_witness:
  "(0::nat) < length (runs ((init 10000)\<lparr>runs := [Running]\<rparr>)) \<and>
   length [True, False, True] = length [1, 2, 3 :: int] \<and>
   (\<exists>st'.
      run_events example_uuidv4 (map (FetchSettled 0) [True, False, True])
        (resume (NextItem first_entry [1, 2, 3]) 0 ((init 10000)\<lparr>runs := [Running]\<rparr>)) =
        Some st' \<and>
      fetched st' = [(''uu'', 1), (''uu'', 2), (''uu'', 3)] \<and>
      errors st' = [(''uu'', 2)] \<and>
      map_option b_status (batchStatuses st' ''uu'') = Some completed \<and>
      runs st' ! 0 = Returned)"
proof -
  let ?W = "(init 10000)\<lparr>runs := [Running]\<rparr>"
  have 1: "(0::nat) < length (runs ?W)"
    by simp
  have 2: "length [True, False, True] = length [1, 2, 3 :: int]"
    by simp
  have 3: "recomputed (e_ingestion_id first_entry) (set_batch_status first_entry completed ?W) =
      Inr None"
    by (simp add: recomputed_def updateIngestionStatus_def set_batch_status_def init_def)
  have 4: "e_batch_id first_entry = ''uu''" "queue ?W = []" "fetched ?W = []" "errors ?W = []"
    by (simp_all add: first_entry_def init_def)
  from C7_item_failures [OF 1 2, of _ first_entry _ example_uuidv4]
  obtain st' where
    "run_events example_uuidv4 (map (FetchSettled 0) [True, False, True])
        (resume (NextItem first_entry [1, 2, 3]) 0 ?W) = Some st'"
    "fetched st' = fetched ?W @ map (Pair (e_batch_id first_entry)) [1, 2, 3]"
    "errors st' = errors ?W @
        map (Pair (e_batch_id first_entry)) (failed [1, 2, 3] [True, False, True])"
    "map_option b_status (batchStatuses st' (e_batch_id first_entry)) = Some completed"
    "runs st' ! 0 =
        (case recomputed (e_ingestion_id first_entry)
                (set_batch_status first_entry completed ?W) of
           Inl e \<Rightarrow> Threw e
         | Inr s \<Rightarrow> if queue ?W = [] then Returned else AtGate (clock ?W + RATE_LIMIT_MS))"
    by blast
  then show ?thesis
    unfolding 3 4 by (intro conjI exI [of _ st']) simp_all
qed

section \<open>Scenario A on an idle server\<close>

text \<open>
  When the server is idle and the last dispatch is more than 5000 ms ago, the run that the
  handler starts dispatches the first batch before the handler answers: after the request
  the first batch and the job are already \<open>triggered\<close>, the second batch is queued.
\<close>

lemma scenario_A_on_idle_server:
  "map_option
     (\<lambda>s. (map_option j_status (ingestionJobs s ''u''),
           map_option b_status (batchStatuses s ''uu''),
           map_option b_status (batchStatuses s ''uuu''),
           map e_ids (queue s)))
     (run_events example_uuidv4 [PostIngest scenario_A] (init 10000)) =
   Some (Some triggered, Some triggered, Some yet_to_start, [[4]])"
  by (simp add: eval_simps scenario_A_def slices_eval)

end
